theory Spec2Isabelle
  imports Complex_Main "HOL-Library.Multiset"
begin

section \<open>Costs: \<open>float64\<close>\<close>

text \<open>
  Edge costs, heuristic values, g-scores and f-costs are \<open>float64\<close> in the source, the
  binary64 format of IEEE 754. \<open>Finite m e\<close> stands for the number \<open>m * 2 ^ e\<close>. The finite
  values of the format are \<open>Finite 0 0\<close> and \<open>Finite m e\<close> with \<open>m\<close> odd, \<open>\<bar>m\<bar> < 2 ^ 53\<close>,
  \<open>- 1074 \<le> e\<close> and \<open>\<bar>m\<bar> * 2 ^ e < 2 ^ 1024\<close>; the two zeros of the format are not told
  apart (the package only adds costs and compares them with \<open><\<close>, and neither operation
  distinguishes them). \<open>round64 m e\<close> is the value nearest to \<open>m * 2 ^ e\<close>, the one with the
  even mantissa when two are equally near, and infinite from \<open>2 ^ 1024\<close> on. The sum of two
  finite values is their exact sum, rounded; every comparison with \<open>NaN\<close> is false.
\<close>

datatype float64 = Finite int int | PosInf | NegInf | NaN

function bitlen :: "int \<Rightarrow> nat" where
  "bitlen k = (if k \<le> 0 then 0 else Suc (bitlen (k div 2)))"
  by pat_completeness auto
termination
  by (relation "measure nat") auto

declare bitlen.simps [simp del]

function normal :: "int \<Rightarrow> int \<Rightarrow> float64" where
  "normal m e =
     (if m = 0 then Finite 0 0
      else if even m then normal (m div 2) (e + 1)
      else Finite m e)"
  by pat_completeness auto
termination
  by (relation "measure (\<lambda>(m, e). nat \<bar>m\<bar>)") auto

declare normal.simps [simp del]

text \<open>\<open>roundToEven m s\<close> is \<open>m / 2 ^ s\<close> rounded to the nearest integer, ties to even.\<close>

definition roundToEven :: "int \<Rightarrow> nat \<Rightarrow> int" where
  "roundToEven m s =
     (let q = m div 2 ^ s; r = m mod 2 ^ s
      in if 2 * r > 2 ^ s \<or> (2 * r = 2 ^ s \<and> odd q) then q + 1 else q)"

definition round64 :: "int \<Rightarrow> int \<Rightarrow> float64" where
  "round64 m e =
     (let s = nat (max (int (bitlen \<bar>m\<bar>) - 53) (- 1074 - e));
          m' = roundToEven m s;
          e' = e + int s
      in if int (bitlen \<bar>m'\<bar>) + e' > 1024 then (if m' > 0 then PosInf else NegInf)
         else normal m' e')"

fun fadd :: "float64 \<Rightarrow> float64 \<Rightarrow> float64" where
  "fadd (Finite m1 e1) (Finite m2 e2) =
     (let e = min e1 e2 in round64 (m1 * 2 ^ nat (e1 - e) + m2 * 2 ^ nat (e2 - e)) e)"
| "fadd NaN y = NaN"
| "fadd x NaN = NaN"
| "fadd PosInf NegInf = NaN"
| "fadd NegInf PosInf = NaN"
| "fadd PosInf y = PosInf"
| "fadd NegInf y = NegInf"
| "fadd x PosInf = PosInf"
| "fadd x NegInf = NegInf"

fun flt :: "float64 \<Rightarrow> float64 \<Rightarrow> bool" where
  "flt (Finite m1 e1) (Finite m2 e2) =
     (let e = min e1 e2 in m1 * 2 ^ nat (e1 - e) < m2 * 2 ^ nat (e2 - e))"
| "flt NaN y = False"
| "flt x NaN = False"
| "flt NegInf NegInf = False"
| "flt NegInf y = True"
| "flt x NegInf = False"
| "flt PosInf y = False"
| "flt x PosInf = True"

fun fle :: "float64 \<Rightarrow> float64 \<Rightarrow> bool" where
  "fle (Finite m1 e1) (Finite m2 e2) =
     (let e = min e1 e2 in m1 * 2 ^ nat (e1 - e) \<le> m2 * 2 ^ nat (e2 - e))"
| "fle NaN y = False"
| "fle x NaN = False"
| "fle NegInf y = True"
| "fle x PosInf = True"
| "fle PosInf y = False"
| "fle x NegInf = False"

text \<open>The operators \<open>+\<close>, \<open><\<close> and \<open><=\<close> of Go on \<open>float64\<close>, and the constant \<open>0.0\<close>.\<close>

instantiation float64 :: "{zero, plus, ord}"
begin

definition zero_float64 :: float64 where
  "zero_float64 = Finite 0 0"

definition plus_float64 :: "float64 \<Rightarrow> float64 \<Rightarrow> float64" where
  "plus_float64 x y = fadd x y"

definition less_float64 :: "float64 \<Rightarrow> float64 \<Rightarrow> bool" where
  "less_float64 x y = flt x y"

definition less_eq_float64 :: "float64 \<Rightarrow> float64 \<Rightarrow> bool" where
  "less_eq_float64 x y = fle x y"

instance ..

end

text \<open>
  Constants are written with the conversion \<open>float64\<close> of an integer and with \<open>ldexp\<close>
  (\<open>math.Ldexp\<close>): \<open>ldexp m e\<close> is \<open>m * 2 ^ e\<close>, rounded.
\<close>

definition float64 :: "int \<Rightarrow> float64" where
  "float64 n = round64 n 0"

definition ldexp :: "int \<Rightarrow> int \<Rightarrow> float64" where
  "ldexp m e = round64 m e"

section \<open>Data model\<close>

text \<open>
  The Go package \<open>astar\<close> is generic over a comparable node type, here the type variable
  \<open>'n\<close>. A graph is its \<open>Neighbors\<close> method, taken to be a function of the node.
\<close>

record 'n Neighbor =
  ID :: 'n
  Cost :: float64

type_synonym 'n Graph = "'n \<Rightarrow> 'n Neighbor list"

type_synonym 'n Heuristic = "'n \<Rightarrow> 'n \<Rightarrow> float64"

record 'n PriorityQueueItem =
  Node :: 'n
  GScore :: float64
  FCost :: float64
  IndexInQueue :: nat

record 'n ExpandTask =
  taskFromNode :: 'n
  taskNeighbor :: "'n Neighbor"
  CurrentGScore :: float64
  GoalNode :: 'n
  HeuristicFunc :: "'n Heuristic"

record 'n RelaxProposal =
  FromNode :: 'n
  ToNode :: 'n
  propGScore :: float64
  propFCost :: float64

record 'n Result =
  Path :: "'n list"
  TotalCost :: float64
  ExpandedNodes :: nat
  Found :: bool

text \<open>
  The two errors of the package: the one of \<open>errors.New("no path found")\<close> and the value
  of \<open>ctx.Err()\<close> once the context is done.
\<close>

datatype error = NoPathFound | ContextDone

section \<open>The priority queue and \<open>container/heap\<close>\<close>

text \<open>
  \<open>PriorityQueue\<close> is a slice of pointers to items. The items live in a store (a list,
  the address of an item is its index, allocation appends), and the queue is the list of
  addresses; a value of type \<open>PQ\<close> is the pair of both. The functions \<open>up\<close>, \<open>down\<close>,
  \<open>heap_Init\<close>, \<open>heap_Push\<close>, \<open>heap_Pop\<close> and \<open>heap_Fix\<close> are those of Go's standard
  package \<open>container/heap\<close>, applied to the methods \<open>Len\<close>, \<open>Less\<close>, \<open>Swap\<close>,
  \<open>Push\<close> and \<open>Pop\<close> of \<open>PriorityQueue\<close>. An index panic is the value \<open>None\<close>.
\<close>

type_synonym 'n PQ = "'n PriorityQueueItem list \<times> nat list"

definition Len :: "'n PQ \<Rightarrow> nat" where
  "Len pq = length (snd pq)"

definition Less :: "'n PQ \<Rightarrow> nat \<Rightarrow> nat \<Rightarrow> bool" where
  "Less pq i j = (FCost (fst pq ! (snd pq ! i)) < FCost (fst pq ! (snd pq ! j)))"

definition Swap :: "'n PQ \<Rightarrow> nat \<Rightarrow> nat \<Rightarrow> 'n PQ" where
  "Swap pq i j =
     (let m = fst pq; q = snd pq;
          q' = q[i := q ! j, j := q ! i];
          m1 = m[q' ! i := (m ! (q' ! i))\<lparr>IndexInQueue := i\<rparr>];
          m2 = m1[q' ! j := (m1 ! (q' ! j))\<lparr>IndexInQueue := j\<rparr>]
      in (m2, q'))"

definition Push :: "'n PQ \<Rightarrow> nat \<Rightarrow> 'n PQ" where
  "Push pq x = (fst pq, snd pq @ [x])"

definition Pop :: "'n PQ \<Rightarrow> 'n PQ \<times> nat" where
  "Pop pq = ((fst pq, butlast (snd pq)), last (snd pq))"

function up :: "'n PQ \<Rightarrow> nat \<Rightarrow> 'n PQ" where
  "up pq j =
     (let i = (j - 1) div 2 in
      if i = j \<or> \<not> Less pq j i then pq else up (Swap pq i j) i)"
  by pat_completeness auto
termination
  by (relation "measure snd") auto

declare up.simps [simp del]

function down_loop :: "'n PQ \<Rightarrow> nat \<Rightarrow> nat \<Rightarrow> 'n PQ \<times> nat" where
  "down_loop pq i n =
     (let j1 = 2 * i + 1 in
      if j1 \<ge> n then (pq, i)
      else let j = (if j1 + 1 < n \<and> Less pq (j1 + 1) j1 then j1 + 1 else j1) in
        if \<not> Less pq j i then (pq, i)
        else down_loop (Swap pq i j) j n)"
  by pat_completeness auto
termination
  by (relation "measure (\<lambda>(pq, i, n). n - i)") auto

declare down_loop.simps [simp del]

definition down :: "'n PQ \<Rightarrow> nat \<Rightarrow> nat \<Rightarrow> 'n PQ \<times> bool" where
  "down pq i0 n = (let (pq', i) = down_loop pq i0 n in (pq', i > i0))"

definition heap_Init :: "'n PQ \<Rightarrow> 'n PQ" where
  "heap_Init pq = (let n = Len pq in fold (\<lambda>i h. fst (down h i n)) (rev [0..<n div 2]) pq)"

definition heap_Push :: "'n PQ \<Rightarrow> nat \<Rightarrow> 'n PQ" where
  "heap_Push pq x = (let pq1 = Push pq x in up pq1 (Len pq1 - 1))"

definition heap_Pop :: "'n PQ \<Rightarrow> ('n PQ \<times> nat) option" where
  "heap_Pop pq =
     (if Len pq = 0 then None
      else let n = Len pq - 1;
               pq1 = Swap pq 0 n;
               pq2 = fst (down pq1 0 n)
           in Some (Pop pq2))"

definition heap_Fix :: "'n PQ \<Rightarrow> nat \<Rightarrow> 'n PQ option" where
  "heap_Fix pq i =
     (case down pq i (Len pq) of
        (pq', moved) \<Rightarrow>
          if moved then Some pq'
          else if i \<noteq> 0 \<and> i \<ge> Len pq' then None
          else Some (up pq' i))"

section \<open>Search state, workers and relaxation\<close>

text \<open>
  \<open>Search\<close> keeps the frontier, its index, the closed set, the predecessor map and the
  g-score map in local variables; the \<open>Stepper\<close> keeps the same five structures in
  fields (where the g-score map is called \<open>gScore\<close>). Both are modelled by the record
  \<open>SearchState\<close>, extended by the expansion counter for \<open>Search\<close> and by the
  configuration and status fields for the \<open>Stepper\<close>. The field \<open>items\<close> is the store
  of the allocated queue items.
\<close>

record 'n SearchState =
  items :: "'n PriorityQueueItem list"
  openSet :: "nat list"
  openSetMap :: "'n \<rightharpoonup> nat"
  closedSet :: "'n set"
  cameFrom :: "'n \<rightharpoonup> 'n"
  pathCostFromStart :: "'n \<rightharpoonup> float64"

record 'n SearchLoop = "'n SearchState" +
  expandedNodes :: nat

text \<open>A worker turns one task into one proposal; it reads nothing but the task.\<close>

definition worker :: "'n ExpandTask \<Rightarrow> 'n RelaxProposal" where
  "worker task =
     (let tentativeG = CurrentGScore task + Cost (taskNeighbor task);
          f = tentativeG + HeuristicFunc task (ID (taskNeighbor task)) (GoalNode task)
      in \<lparr>FromNode = taskFromNode task, ToNode = ID (taskNeighbor task),
          propGScore = tentativeG, propFCost = f\<rparr>)"

text \<open>
  The orchestrator sends one task per neighbour on an unbuffered channel and only then
  starts to receive proposals, also on an unbuffered channel. A worker that has taken a
  task blocks on sending its proposal until the orchestrator receives, so every task of a
  round needs a worker of its own: with more neighbours than workers the send of the next
  task blocks forever (\<open>None\<close>). Otherwise the proposals of the round are ready to be
  received, in an order the scheduler chooses: the parameter \<open>arrival\<close> maps the proposals
  in dispatch order to the order in which they are received.
\<close>

type_synonym 'n Arrival = "'n RelaxProposal list \<Rightarrow> 'n RelaxProposal list"

text \<open>
  The context is cancelled by the environment, at a time of its choosing, and a \<open>select\<close>
  with two ready cases takes either. What this does to a round is the parameter \<open>ctx\<close>, a
  function of the proposals of the round in dispatch order: \<open>Live\<close>, nobody takes a
  \<open>ctx.Done()\<close> case during the round (as when the context is not cancelled);
  \<open>WorkersReturned\<close>, a worker that the round needs has taken the \<open>ctx.Done()\<close> case of its
  \<open>select\<close> and returned, so that the send of a task blocks forever; \<open>DoneAt i\<close>, all
  tasks are taken and the \<open>select\<close> of pass \<open>i\<close> (counted from 0) of the collecting loop
  takes the \<open>ctx.Done()\<close> case. A round without neighbours sends and receives nothing
  and is not affected. \<open>background\<close> is a context that is never cancelled.
\<close>

datatype Cancellation = Live | WorkersReturned | DoneAt nat

type_synonym 'n Context = "'n RelaxProposal list \<Rightarrow> Cancellation"

definition background :: "'n Context" where
  "background proposals = Live"

definition dispatch ::
  "'n Arrival \<Rightarrow> 'n Context \<Rightarrow> int \<Rightarrow> 'n ExpandTask list \<Rightarrow> 'n RelaxProposal list option" where
  "dispatch arrival ctx numberOfWorkers tasks =
     (if tasks = [] then Some []
      else if int (length tasks) > numberOfWorkers \<or> ctx (map worker tasks) = WorkersReturned
      then None
      else Some (arrival (map worker tasks)))"

text \<open>The body of the collecting loop for one received proposal.\<close>

definition applyProposal ::
  "('n, 'z) SearchState_scheme \<Rightarrow> 'n RelaxProposal \<Rightarrow> ('n, 'z) SearchState_scheme option" where
  "applyProposal st proposal =
     (if ToNode proposal \<in> closedSet st then Some st
      else if (case pathCostFromStart st (ToNode proposal) of
                 None \<Rightarrow> True
               | Some currentG \<Rightarrow> propGScore proposal < currentG)
      then
        let st1 = st\<lparr>pathCostFromStart :=
                       (pathCostFromStart st)(ToNode proposal \<mapsto> propGScore proposal),
                     cameFrom := (cameFrom st)(ToNode proposal \<mapsto> FromNode proposal)\<rparr>
        in (case openSetMap st1 (ToNode proposal) of
              None \<Rightarrow>
                let a = length (items st1);
                    item = \<lparr>Node = ToNode proposal, GScore = propGScore proposal,
                            FCost = propFCost proposal, IndexInQueue = 0\<rparr>;
                    pq = heap_Push (items st1 @ [item], openSet st1) a
                in Some (st1\<lparr>items := fst pq, openSet := snd pq,
                             openSetMap := (openSetMap st1)(ToNode proposal \<mapsto> a)\<rparr>)
            | Some a \<Rightarrow>
                if propFCost proposal < FCost (items st1 ! a) then
                  let m = (items st1)[a := (items st1 ! a)\<lparr>GScore := propGScore proposal,
                                                            FCost := propFCost proposal\<rparr>]
                  in (case heap_Fix (m, openSet st1) (IndexInQueue (m ! a)) of
                        None \<Rightarrow> None
                      | Some pq \<Rightarrow> Some (st1\<lparr>items := fst pq, openSet := snd pq\<rparr>))
                else Some st1)
      else Some st)"

text \<open>
  The collecting loop, from pass \<open>i\<close> on: the result is the state it leaves, paired with
  \<open>True\<close> when the loop was left through the \<open>ctx.Done()\<close> case.
\<close>

fun collect ::
  "Cancellation \<Rightarrow> nat \<Rightarrow> ('n, 'z) SearchState_scheme \<Rightarrow> 'n RelaxProposal list \<Rightarrow>
   (('n, 'z) SearchState_scheme \<times> bool) option" where
  "collect c i st [] = Some (st, False)"
| "collect c i st (p # ps) =
     (if c = DoneAt i then Some (st, True)
      else case applyProposal st p of None \<Rightarrow> None | Some st' \<Rightarrow> collect c (Suc i) st' ps)"

definition expand ::
  "'n Arrival \<Rightarrow> 'n Context \<Rightarrow> 'n Graph \<Rightarrow> 'n \<Rightarrow> 'n Heuristic \<Rightarrow> int \<Rightarrow>
   'n PriorityQueueItem \<Rightarrow> ('n, 'z) SearchState_scheme \<Rightarrow>
   (('n, 'z) SearchState_scheme \<times> bool) option" where
  "expand arrival ctx graph goalNode heuristic numberOfWorkers currentItem st =
     (let neighbors = graph (Node currentItem);
          tasks = map (\<lambda>neighbor. \<lparr>taskFromNode = Node currentItem, taskNeighbor = neighbor,
                                     CurrentGScore = GScore currentItem, GoalNode = goalNode,
                                     HeuristicFunc = heuristic\<rparr>) neighbors
      in case dispatch arrival ctx numberOfWorkers tasks of
           None \<Rightarrow> None
         | Some proposals \<Rightarrow> collect (ctx (map worker tasks)) 0 st proposals)"

section \<open>Path reconstruction\<close>

text \<open>
  Both loops follow predecessor links and need not terminate on a cyclic map, hence the
  option type: \<open>None\<close> is a walk that never ends.
\<close>

partial_function (option) reconstructPath_loop ::
  "('n \<rightharpoonup> 'n) \<Rightarrow> 'n \<Rightarrow> 'n \<Rightarrow> 'n list \<Rightarrow> 'n list option" where
  "reconstructPath_loop came current start path =
     (if current \<noteq> start then
        (case came current of
           None \<Rightarrow> Some path
         | Some previousNode \<Rightarrow> reconstructPath_loop came previousNode start (path @ [previousNode]))
      else Some path)"

definition reconstructPath :: "('n \<rightharpoonup> 'n) \<Rightarrow> 'n \<Rightarrow> 'n \<Rightarrow> 'n list option" where
  "reconstructPath came current start =
     map_option rev (reconstructPath_loop came current start [current])"

partial_function (option) inferStartFromCameFrom :: "('n \<rightharpoonup> 'n) \<Rightarrow> 'n \<Rightarrow> 'n option" where
  "inferStartFromCameFrom came cur =
     (case came cur of None \<Rightarrow> Some cur | Some prev \<Rightarrow> inferStartFromCameFrom came prev)"

section \<open>Run-to-completion search\<close>

definition initialState :: "'n \<Rightarrow> 'n \<Rightarrow> 'n Heuristic \<Rightarrow> 'n SearchState" where
  "initialState startNode goalNode heuristic =
     (let pq0 = heap_Init ([], []);
          startItem = \<lparr>Node = startNode, GScore = 0, FCost = heuristic startNode goalNode,
                       IndexInQueue = 0\<rparr>;
          a = length (fst pq0);
          pq = heap_Push (fst pq0 @ [startItem], snd pq0) a
      in \<lparr>items = fst pq, openSet = snd pq, openSetMap = [startNode \<mapsto> a],
          closedSet = {}, cameFrom = Map.empty, pathCostFromStart = [startNode \<mapsto> 0]\<rparr>)"

text \<open>
  One pass through the body of the orchestrator loop: \<open>Inl\<close> is the state at the next
  loop head, \<open>Inr\<close> the returned result and error, \<open>None\<close> a pass that never finishes.
\<close>

definition Search_iteration ::
  "'n Arrival \<Rightarrow> 'n Context \<Rightarrow> 'n Graph \<Rightarrow> 'n \<Rightarrow> 'n \<Rightarrow> 'n Heuristic \<Rightarrow> int \<Rightarrow>
   'n SearchLoop \<Rightarrow> ('n SearchLoop + 'n Result \<times> error option) option" where
  "Search_iteration arrival ctx graph startNode goalNode heuristic numberOfWorkers st =
     (if Len (items st, openSet st) = 0 then
        Some (Inr (\<lparr>Path = [], TotalCost = 0, ExpandedNodes = expandedNodes st, Found = False\<rparr>,
                   Some NoPathFound))
      else
        (case heap_Pop (items st, openSet st) of
           None \<Rightarrow> None
         | Some (pq, a) \<Rightarrow>
             let currentItem = fst pq ! a;
                 currentNode = Node currentItem;
                 st1 = st\<lparr>items := fst pq, openSet := snd pq,
                          openSetMap := (openSetMap st)(currentNode := None)\<rparr>
             in if currentNode \<in> closedSet st1 then Some (Inl st1)
                else
                  let st2 = st1\<lparr>closedSet := insert currentNode (closedSet st1),
                                expandedNodes := expandedNodes st1 + 1\<rparr>
                  in if currentNode = goalNode then
                       (case reconstructPath (cameFrom st2) currentNode startNode of
                          None \<Rightarrow> None
                        | Some path \<Rightarrow>
                            Some (Inr (\<lparr>Path = path, TotalCost = GScore currentItem,
                                        ExpandedNodes = expandedNodes st2, Found = True\<rparr>, None)))
                     else
                       (case expand arrival ctx graph goalNode heuristic numberOfWorkers
                               currentItem st2 of
                          None \<Rightarrow> None
                        | Some (st3, cancelled) \<Rightarrow>
                            if cancelled then
                              Some (Inr (\<lparr>Path = [], TotalCost = 0, ExpandedNodes = 0,
                                          Found = False\<rparr>, Some ContextDone))
                            else Some (Inl st3))))"

partial_function (option) orchestrate ::
  "'n Arrival \<Rightarrow> 'n Context \<Rightarrow> 'n Graph \<Rightarrow> 'n \<Rightarrow> 'n \<Rightarrow> 'n Heuristic \<Rightarrow> int \<Rightarrow>
   'n SearchLoop \<Rightarrow> ('n Result \<times> error option) option" where
  "orchestrate arrival ctx graph startNode goalNode heuristic numberOfWorkers st =
     (case Search_iteration arrival ctx graph startNode goalNode heuristic numberOfWorkers st of
        None \<Rightarrow> None
      | Some (Inr res) \<Rightarrow> Some res
      | Some (Inl st') \<Rightarrow>
          orchestrate arrival ctx graph startNode goalNode heuristic numberOfWorkers st')"

definition Search ::
  "'n Arrival \<Rightarrow> 'n Context \<Rightarrow> 'n Graph \<Rightarrow> 'n \<Rightarrow> 'n \<Rightarrow> 'n Heuristic \<Rightarrow> int \<Rightarrow>
   ('n Result \<times> error option) option" where
  "Search arrival ctx graph startNode goalNode heuristic numberOfWorkers =
     orchestrate arrival ctx graph startNode goalNode heuristic numberOfWorkers
       (SearchState.extend (initialState startNode goalNode heuristic)
          (SearchLoop.fields 0))"

section \<open>The Stepper\<close>

text \<open>
  A snapshot field that a composite literal leaves out holds the zero value of its type:
  \<open>0\<close> for \<open>Current\<close> (the zero value of the node type), the empty list for the nil path,
  the empty set and the empty map for the nil maps. \<open>Open\<close> and \<open>Closed\<close> are the key sets
  of the copied maps (every value in them is \<open>true\<close>); copying a map yields an equal map.
  The context and the channels of a Stepper belong to the environment and are no fields
  here; \<open>Step\<close> takes the parameters \<open>arrival\<close> and \<open>ctx\<close> instead.
\<close>

record 'n StepSnapshot =
  Current :: 'n
  Open :: "'n set"
  Closed :: "'n set"
  CameFrom :: "'n \<rightharpoonup> 'n"
  Done :: bool
  snapFound :: bool
  snapPath :: "'n list"
  StepIndex :: nat

record 'n Stepper = "'n SearchState" +
  graph :: "'n Graph"
  goal :: 'n
  heuristic :: "'n Heuristic"
  workers :: int
  stepCount :: nat
  done' :: bool
  found :: bool

definition NewStepper :: "'n Graph \<Rightarrow> 'n \<Rightarrow> 'n \<Rightarrow> 'n Heuristic \<Rightarrow> int \<Rightarrow> 'n Stepper" where
  "NewStepper graph' startNode goalNode heuristic' numberOfWorkers =
     (let pq0 = heap_Init ([], []);
          startItem = \<lparr>Node = startNode, GScore = 0, FCost = heuristic' startNode goalNode,
                       IndexInQueue = 0\<rparr>;
          a = length (fst pq0);
          pq = heap_Push (fst pq0 @ [startItem], snd pq0) a
      in \<lparr>items = fst pq, openSet = snd pq, openSetMap = [startNode \<mapsto> a],
          closedSet = {}, cameFrom = Map.empty, pathCostFromStart = [startNode \<mapsto> 0],
          graph = graph', goal = goalNode, heuristic = heuristic', workers = numberOfWorkers,
          stepCount = 0, done' = False, found = False\<rparr>)"

definition openSetToBoolMap :: "'n Stepper \<Rightarrow> 'n set" where
  "openSetToBoolMap s = dom (openSetMap s)"

definition copyBoolMap :: "'n set \<Rightarrow> 'n set" where
  "copyBoolMap m = m"

definition copyCameFrom :: "('n \<rightharpoonup> 'n) \<Rightarrow> ('n \<rightharpoonup> 'n)" where
  "copyCameFrom m = m"

function Step ::
  "'n Arrival \<Rightarrow> 'n Context \<Rightarrow> ('n::zero) Stepper \<Rightarrow>
   ('n Stepper \<times> 'n StepSnapshot \<times> error option) option" where
  "Step arrival ctx s =
     (if done' s then
        Some (s, \<lparr>Current = 0, Open = copyBoolMap (openSetToBoolMap s),
                  Closed = copyBoolMap (closedSet s), CameFrom = copyCameFrom (cameFrom s),
                  Done = True, snapFound = found s, snapPath = [], StepIndex = stepCount s\<rparr>,
              None)
      else if Len (items s, openSet s) = 0 then
        (let s1 = s\<lparr>done' := True\<rparr>
         in Some (s1, \<lparr>Current = 0, Open = copyBoolMap (openSetToBoolMap s1),
                       Closed = copyBoolMap (closedSet s1),
                       CameFrom = copyCameFrom (cameFrom s1), Done = True, snapFound = False,
                       snapPath = [], StepIndex = stepCount s1\<rparr>,
                  None))
      else
        (let s1 = s\<lparr>stepCount := stepCount s + 1\<rparr>
         in case heap_Pop (items s1, openSet s1) of
              None \<Rightarrow> None
            | Some (pq, a) \<Rightarrow>
                let currentItem = fst pq ! a;
                    current = Node currentItem;
                    s2 = s1\<lparr>items := fst pq, openSet := snd pq,
                             openSetMap := (openSetMap s1)(current := None)\<rparr>
                in if current \<in> closedSet s2 then Step arrival ctx s2
                   else
                     let s3 = s2\<lparr>closedSet := insert current (closedSet s2)\<rparr>
                     in if current = goal s3 then
                          (let s4 = s3\<lparr>done' := True, found := True\<rparr>
                           in case inferStartFromCameFrom (cameFrom s4) current of
                                None \<Rightarrow> None
                              | Some start \<Rightarrow>
                                  (case reconstructPath (cameFrom s4) current start of
                                     None \<Rightarrow> None
                                   | Some path \<Rightarrow>
                                       Some (s4,
                                         \<lparr>Current = current,
                                          Open = copyBoolMap (openSetToBoolMap s4),
                                          Closed = copyBoolMap (closedSet s4),
                                          CameFrom = copyCameFrom (cameFrom s4),
                                          Done = True, snapFound = True, snapPath = path,
                                          StepIndex = stepCount s4\<rparr>,
                                         None)))
                        else
                          (case expand arrival ctx (graph s3) (goal s3) (heuristic s3)
                                  (workers s3) currentItem s3 of
                             None \<Rightarrow> None
                           | Some (s4, cancelled) \<Rightarrow>
                               if cancelled then
                                 (let s5 = s4\<lparr>done' := True\<rparr>
                                  in Some (s5,
                                       \<lparr>Current = 0, Open = {}, Closed = {},
                                        CameFrom = Map.empty, Done = True, snapFound = False,
                                        snapPath = [], StepIndex = stepCount s5\<rparr>,
                                       Some ContextDone))
                               else
                                 Some (s4,
                                   \<lparr>Current = current,
                                    Open = copyBoolMap (openSetToBoolMap s4),
                                    Closed = copyBoolMap (closedSet s4),
                                    CameFrom = copyCameFrom (cameFrom s4),
                                    Done = False, snapFound = False, snapPath = [],
                                    StepIndex = stepCount s4\<rparr>,
                                   None))))"
  by pat_completeness auto

text \<open>The caller's loop of the package documentation: step until a snapshot is done.\<close>

partial_function (option) stepUntilDone ::
  "'n Arrival \<Rightarrow> 'n Context \<Rightarrow> ('n::zero) Stepper \<Rightarrow>
   ('n Stepper \<times> 'n StepSnapshot \<times> error option) option" where
  "stepUntilDone arrival ctx s =
     (case Step arrival ctx s of
        None \<Rightarrow> None
      | Some (s', snap, err) \<Rightarrow>
          if Done snap then Some (s', snap, err) else stepUntilDone arrival ctx s')"

text \<open>The recursive equations of the partial functions serve as code equations.\<close>

declare orchestrate.simps [code] reconstructPath_loop.simps [code]
  inferStartFromCameFrom.simps [code] stepUntilDone.simps [code]

text \<open>
  The key set of a map over an infinite node type cannot be enumerated; in evaluations
  the \<open>Open\<close> field of a snapshot stays symbolic.
\<close>

declare openSetToBoolMap_def [code del]

section \<open>Reachable states\<close>

text \<open>
  The states at the head of the orchestrator loop of one \<open>Search\<close> call, and the
  Steppers a caller can hold: the one \<open>NewStepper\<close> returns and those left by \<open>Step\<close>.
\<close>

inductive Search_reach ::
  "'n Arrival \<Rightarrow> 'n Context \<Rightarrow> 'n Graph \<Rightarrow> 'n \<Rightarrow> 'n \<Rightarrow> 'n Heuristic \<Rightarrow> int \<Rightarrow>
   'n SearchLoop \<Rightarrow> bool"
  for arrival ctx G startNode goalNode h W where
  Search_reach_init:
    "Search_reach arrival ctx G startNode goalNode h W
       (SearchState.extend (initialState startNode goalNode h) (SearchLoop.fields 0))"
| Search_reach_step:
    "Search_reach arrival ctx G startNode goalNode h W st \<Longrightarrow>
     Search_iteration arrival ctx G startNode goalNode h W st = Some (Inl st') \<Longrightarrow>
     Search_reach arrival ctx G startNode goalNode h W st'"

inductive Stepper_reach ::
  "'n Arrival \<Rightarrow> 'n Context \<Rightarrow> 'n Graph \<Rightarrow> 'n \<Rightarrow> 'n \<Rightarrow> 'n Heuristic \<Rightarrow> int \<Rightarrow>
   ('n::zero) Stepper \<Rightarrow> bool"
  for arrival ctx G startNode goalNode h W where
  Stepper_reach_init:
    "Stepper_reach arrival ctx G startNode goalNode h W
       (NewStepper G startNode goalNode h W)"
| Stepper_reach_step:
    "Stepper_reach arrival ctx G startNode goalNode h W s \<Longrightarrow>
     Step arrival ctx s = Some (s', snap, err) \<Longrightarrow>
     Stepper_reach arrival ctx G startNode goalNode h W s'"

text \<open>
  The scheduler delivers every proposal of a round exactly once: \<open>arrival\<close> permutes.
\<close>

definition permutes :: "'n Arrival \<Rightarrow> bool" where
  "permutes arrival \<longleftrightarrow> (\<forall>ps. mset (arrival ps) = mset ps)"

section \<open>Predecessor chains, walks and reachability\<close>

text \<open>
  \<open>trail came start v p\<close>: following \<open>came\<close> from \<open>v\<close> arrives at \<open>start\<close>, and \<open>p\<close>
  lists the nodes met, from \<open>start\<close> to \<open>v\<close>. \<open>walk_cost G p c\<close>: consecutive nodes of
  \<open>p\<close> are joined by edges of the graph that can be chosen so that their costs, added one
  after the other from the first edge on, give \<open>c\<close>. \<open>reaches G u v\<close>: some sequence of
  edges of the graph leads from \<open>u\<close> to \<open>v\<close>.
\<close>

inductive trail :: "('n \<rightharpoonup> 'n) \<Rightarrow> 'n \<Rightarrow> 'n \<Rightarrow> 'n list \<Rightarrow> bool" for came start where
  trail_start: "trail came start start [start]"
| trail_link: "v \<noteq> start \<Longrightarrow> came v = Some u \<Longrightarrow> trail came start u p \<Longrightarrow> trail came start v (p @ [v])"

fun walk_from :: "'n Graph \<Rightarrow> float64 \<Rightarrow> 'n list \<Rightarrow> float64 \<Rightarrow> bool" where
  "walk_from G acc [] c = False"
| "walk_from G acc [v] c = (acc = c)"
| "walk_from G acc (u # v # rest) c =
     (\<exists>nb \<in> set (G u). ID nb = v \<and> walk_from G (acc + Cost nb) (v # rest) c)"

definition walk_cost :: "'n Graph \<Rightarrow> 'n list \<Rightarrow> float64 \<Rightarrow> bool" where
  "walk_cost G p c = walk_from G 0 p c"

inductive reaches :: "'n Graph \<Rightarrow> 'n \<Rightarrow> 'n \<Rightarrow> bool" for G u where
  reaches_refl: "reaches G u u"
| reaches_edge: "reaches G u v \<Longrightarrow> nb \<in> set (G v) \<Longrightarrow> reaches G u (ID nb)"

section \<open>The invariant of the search state\<close>

text \<open>
  The invariant speaks of the structure of the state only, not of the scores: the queue
  holds one item for every node of the index and for no closed node, every node with a
  g-score is closed or queued, and the predecessor of a node is a closed node with an
  edge to it, from which the links lead back to the start.
\<close>

definition frontier_ok :: "'n \<Rightarrow> ('n, 'z) SearchState_scheme \<Rightarrow> bool" where
  "frontier_ok start st \<longleftrightarrow>
     distinct (openSet st) \<and>
     (\<forall>a \<in> set (openSet st).
        a < length (items st) \<and>
        openSetMap st (Node (items st ! a)) = Some a \<and>
        Node (items st ! a) \<notin> closedSet st \<and>
        (Node (items st ! a) = start \<or> cameFrom st (Node (items st ! a)) \<noteq> None)) \<and>
     (\<forall>v a. openSetMap st v = Some a \<longrightarrow> a \<in> set (openSet st) \<and> Node (items st ! a) = v) \<and>
     (\<forall>v. pathCostFromStart st v \<noteq> None \<longrightarrow> v \<in> closedSet st \<or> openSetMap st v \<noteq> None)"

definition links_ok :: "'n Graph \<Rightarrow> 'n \<Rightarrow> ('n, 'z) SearchState_scheme \<Rightarrow> bool" where
  "links_ok G start st \<longleftrightarrow>
     (\<forall>v u. cameFrom st v = Some u \<longrightarrow>
        u \<in> closedSet st \<and> (\<exists>nb \<in> set (G u). ID nb = v)) \<and>
     (\<forall>v \<in> closedSet st. \<exists>p. trail (cameFrom st) start v p) \<and>
     cameFrom st start = None \<and>
     finite (closedSet st)"

definition started :: "'n \<Rightarrow> ('n, 'z) SearchState_scheme \<Rightarrow> bool" where
  "started start st \<longleftrightarrow>
     start \<in> closedSet st \<or>
     (cameFrom st = Map.empty \<and> closedSet st = {} \<and> openSet st \<noteq> [] \<and>
      (\<forall>a \<in> set (openSet st). Node (items st ! a) = start))"

definition state_inv :: "'n Graph \<Rightarrow> 'n \<Rightarrow> ('n, 'z) SearchState_scheme \<Rightarrow> bool" where
  "state_inv G start st \<longleftrightarrow>
     frontier_ok start st \<and> links_ok G start st \<and> started start st"

text \<open>At a loop head every neighbour of a closed node is closed or queued.\<close>

definition covered :: "'n Graph \<Rightarrow> ('n, 'z) SearchState_scheme \<Rightarrow> bool" where
  "covered G st \<longleftrightarrow>
     (\<forall>u \<in> closedSet st. \<forall>nb \<in> set (G u).
        ID nb \<in> closedSet st \<or> openSetMap st (ID nb) \<noteq> None)"

section \<open>Notions used in the proofs\<close>

definition payload :: "'n PriorityQueueItem list \<Rightarrow> ('n \<times> float64 \<times> float64) list" where
  "payload m = map (\<lambda>it. (Node it, GScore it, FCost it)) m"

definition keeps :: "'n PQ \<Rightarrow> 'n PQ \<Rightarrow> bool" where
  "keeps pq pq' \<longleftrightarrow> payload (fst pq') = payload (fst pq) \<and> mset (snd pq') = mset (snd pq)"

definition proposal_ok ::
  "'n Graph \<Rightarrow> ('n, 'z) SearchState_scheme \<Rightarrow> 'n RelaxProposal \<Rightarrow> bool" where
  "proposal_ok G st p \<longleftrightarrow>
     FromNode p \<in> closedSet st \<and> (\<exists>nb \<in> set (G (FromNode p)). ID nb = ToNode p)"

definition improves :: "('n, 'z) SearchState_scheme \<Rightarrow> 'n RelaxProposal \<Rightarrow> bool" where
  "improves st p \<longleftrightarrow>
     (case pathCostFromStart st (ToNode p) of None \<Rightarrow> True | Some currentG \<Rightarrow> propGScore p < currentG)"

definition same_core :: "('n, 'y) SearchState_scheme \<Rightarrow> ('n, 'z) SearchState_scheme \<Rightarrow> bool" where
  "same_core st s \<longleftrightarrow>
     items st = items s \<and> openSet st = openSet s \<and> openSetMap st = openSetMap s \<and>
     closedSet st = closedSet s \<and> cameFrom st = cameFrom s \<and>
     pathCostFromStart st = pathCostFromStart s"

definition snapshot ::
  "'n Stepper \<Rightarrow> 'n \<Rightarrow> bool \<Rightarrow> bool \<Rightarrow> 'n list \<Rightarrow> 'n StepSnapshot" where
  "snapshot s cur d f p =
     \<lparr>Current = cur, Open = openSetToBoolMap s, Closed = closedSet s, CameFrom = cameFrom s,
      Done = d, snapFound = f, snapPath = p, StepIndex = stepCount s\<rparr>"

definition interrupted :: "('n::zero) Stepper \<Rightarrow> 'n StepSnapshot" where
  "interrupted s =
     \<lparr>Current = 0, Open = {}, Closed = {}, CameFrom = Map.empty, Done = True,
      snapFound = False, snapPath = [], StepIndex = stepCount s\<rparr>"

definition popped :: "('n, 'z) SearchState_scheme \<Rightarrow> 'n PQ \<Rightarrow> nat \<Rightarrow> ('n, 'z) SearchState_scheme" where
  "popped st pq a =
     st\<lparr>items := fst pq, openSet := snd pq,
        openSetMap := (openSetMap st)(Node (fst pq ! a) := None)\<rparr>"

definition stepper_inv ::
  "'n Graph \<Rightarrow> 'n \<Rightarrow> 'n \<Rightarrow> 'n Heuristic \<Rightarrow> int \<Rightarrow> 'n Stepper \<Rightarrow> bool" where
  "stepper_inv G start goalNode h W s \<longleftrightarrow>
     state_inv G start s \<and> graph s = G \<and> goal s = goalNode \<and>
     heuristic s = h \<and> workers s = W \<and> (found s \<longrightarrow> done' s)"

text \<open>
  No entry of the g-score map disappears, and an entry that changes becomes smaller in
  the order \<open><\<close> of \<open>float64\<close>.
\<close>

definition nonincreasing :: "('n \<rightharpoonup> float64) \<Rightarrow> ('n \<rightharpoonup> float64) \<Rightarrow> bool" where
  "nonincreasing g g' \<longleftrightarrow>
     (\<forall>n old. g n = Some old \<longrightarrow> (\<exists>new. g' n = Some new \<and> (new = old \<or> new < old)))"

text \<open>
  What \<open>Search\<close> returns and what the final snapshot of a Stepper shows agree: the found
  flag, the path and the number of closed nodes are the same, and both report a done
  context or neither does.
\<close>

definition agrees :: "('n Result \<times> error option) \<Rightarrow> ('n StepSnapshot \<times> error option) \<Rightarrow> bool" where
  "agrees r t \<longleftrightarrow>
     snapFound (fst t) = Found (fst r) \<and> snapPath (fst t) = Path (fst r) \<and>
     card (Closed (fst t)) = ExpandedNodes (fst r) \<and>
     (snd t = Some ContextDone \<longleftrightarrow> snd r = Some ContextDone) \<and>
     (snd t = None \<or> snd t = Some ContextDone)"

section \<open>Example inputs\<close>

text \<open>
  Nodes are natural numbers. \<open>inOrder\<close> receives the proposals of a round in dispatch
  order, \<open>reversed\<close> in the reverse of it. \<open>zeroHeuristic\<close> estimates every distance as
  zero (admissible and consistent for non-negative costs).
\<close>

definition edge :: "nat \<Rightarrow> int \<Rightarrow> nat Neighbor" where
  "edge v c = \<lparr>ID = v, Cost = float64 c\<rparr>"

definition inOrder :: "nat Arrival" where
  "inOrder ps = ps"

definition reversed :: "nat Arrival" where
  "reversed ps = rev ps"

definition zeroHeuristic :: "nat Heuristic" where
  "zeroHeuristic a b = 0"

definition detourGraph :: "nat Graph" where
  "detourGraph n =
     (if n = 0 then [edge 6 5, edge 2 6, edge 5 1]
      else if n = 5 then [edge 4 5, edge 3 6, edge 1 1]
      else if n = 1 then [edge 3 1]
      else if n = 3 then [edge 6 1]
      else [])"

text \<open>
  \<open>receiving st\<close> is the state in which the orchestrator receives the first proposal of
  the round that starts at the loop head \<open>st\<close>: the minimum is popped and closed.
\<close>

definition receiving :: "'n SearchLoop \<Rightarrow> 'n SearchLoop" where
  "receiving st =
     (case the (heap_Pop (items st, openSet st)) of
        (pq, a) \<Rightarrow>
          (popped st pq a)\<lparr>closedSet := insert (Node (fst pq ! a)) (closedSet st),
                           expandedNodes := expandedNodes st + 1\<rparr>)"

text \<open>
  The first states of a run on \<open>detourGraph\<close> from 0 to 6 with three workers and a
  context that is not cancelled: the orchestrator's state at the first four loop heads,
  and the Stepper before its first, second and third \<open>Step\<close>. The first round closes
  node 0, the second node 5, the third node 1; \<open>pushProposal\<close> is the first proposal
  received in the second round, \<open>betterProposal\<close> the proposal of the third round.
\<close>

definition detourLoop0 :: "nat SearchLoop" where
  "detourLoop0 = SearchState.extend (initialState 0 6 zeroHeuristic) (SearchLoop.fields 0)"

definition detourLoop1 :: "nat SearchLoop" where
  "detourLoop1 =
     projl (the (Search_iteration inOrder background detourGraph 0 6 zeroHeuristic 3 detourLoop0))"

definition detourLoop2 :: "nat SearchLoop" where
  "detourLoop2 =
     projl (the (Search_iteration inOrder background detourGraph 0 6 zeroHeuristic 3 detourLoop1))"

definition detourLoop3 :: "nat SearchLoop" where
  "detourLoop3 =
     projl (the (Search_iteration inOrder background detourGraph 0 6 zeroHeuristic 3 detourLoop2))"

definition detourStepper0 :: "nat Stepper" where
  "detourStepper0 = NewStepper detourGraph 0 6 zeroHeuristic 3"

definition detourStepper1 :: "nat Stepper" where
  "detourStepper1 = fst (the (Step inOrder background detourStepper0))"

definition detourStepper2 :: "nat Stepper" where
  "detourStepper2 = fst (the (Step inOrder background detourStepper1))"

definition detourStepper3 :: "nat Stepper" where
  "detourStepper3 = fst (the (Step inOrder background detourStepper2))"

definition pushProposal :: "nat RelaxProposal" where
  "pushProposal = \<lparr>FromNode = 5, ToNode = 4, propGScore = float64 6, propFCost = float64 6\<rparr>"

definition betterProposal :: "nat RelaxProposal" where
  "betterProposal = \<lparr>FromNode = 1, ToNode = 3, propGScore = float64 3, propFCost = float64 3\<rparr>"

text \<open>
  \<open>strandedGraph\<close> has no edge at all, so the goal 6 is out of reach of 0 and the frontier
  is empty at the second loop head. \<open>pairGraph\<close> is the single edge from 0 to 1; its
  Stepper for start 0 and goal 1 expands 0 in the first \<open>Step\<close>, finds the goal in the
  second and is polled once more in the third.
\<close>

definition strandedGraph :: "nat Graph" where
  "strandedGraph n = []"

definition strandedLoop1 :: "nat SearchLoop" where
  "strandedLoop1 =
     projl (the (Search_iteration inOrder background strandedGraph 0 6 zeroHeuristic 3 detourLoop0))"

definition pairGraph :: "nat Graph" where
  "pairGraph n = (if n = 0 then [edge 1 1] else [])"

definition pairStepper0 :: "nat Stepper" where
  "pairStepper0 = NewStepper pairGraph 0 1 zeroHeuristic 1"

definition pairStepper1 :: "nat Stepper" where
  "pairStepper1 = fst (the (Step inOrder background pairStepper0))"

definition pairStepper2 :: "nat Stepper" where
  "pairStepper2 = fst (the (Step inOrder background pairStepper1))"

definition pairSnapshot1 :: "nat StepSnapshot" where
  "pairSnapshot1 = fst (snd (the (Step inOrder background pairStepper0)))"

definition pairSnapshot2 :: "nat StepSnapshot" where
  "pairSnapshot2 = fst (snd (the (Step inOrder background pairStepper1)))"

definition pairSnapshot3 :: "nat StepSnapshot" where
  "pairSnapshot3 = fst (snd (the (Step inOrder background pairStepper2)))"

text \<open>
  The Stepper on \<open>strandedGraph\<close> expands 0 in its first \<open>Step\<close> and reports the
  exhausted frontier in the second.
\<close>

definition strandedStepper1 :: "nat Stepper" where
  "strandedStepper1 =
     fst (the (Step inOrder background (NewStepper strandedGraph 0 6 zeroHeuristic 3)))"

definition strandedStepper2 :: "nat Stepper" where
  "strandedStepper2 = fst (the (Step inOrder background strandedStepper1))"

definition strandedSnapshot2 :: "nat StepSnapshot" where
  "strandedSnapshot2 = fst (snd (the (Step inOrder background strandedStepper1)))"

text \<open>
  \<open>cancelledCtx\<close> is a context that is done from the beginning and whose \<open>ctx.Done()\<close> case
  is taken by the first \<open>select\<close> of the orchestrator. On \<open>pairGraph\<close> the first \<open>Step\<close>
  under it closes node 0, sends the task and returns the snapshot of a cancelled step.
\<close>

definition cancelledCtx :: "nat Context" where
  "cancelledCtx proposals = DoneAt 0"

definition haltedStepper1 :: "nat Stepper" where
  "haltedStepper1 = fst (the (Step inOrder cancelledCtx pairStepper0))"

definition haltedSnapshot1 :: "nat StepSnapshot" where
  "haltedSnapshot1 = fst (snd (the (Step inOrder cancelledCtx pairStepper0)))"

text \<open>
  \<open>forkGraph\<close> offers two neighbours of equal cost, one of them the goal 2. In
  \<open>tieGraph\<close> the nodes 1 and 2 are queued with equal f-cost under \<open>tieHeuristic\<close>, and
  the goal 3 is one step from either, at different costs.
\<close>

definition forkGraph :: "nat Graph" where
  "forkGraph n = (if n = 0 then [edge 1 1, edge 2 1] else [])"

definition tieGraph :: "nat Graph" where
  "tieGraph n =
     (if n = 0 then [edge 1 1, edge 2 1]
      else if n = 1 then [edge 3 1]
      else if n = 2 then [edge 3 2]
      else [])"

definition tieHeuristic :: "nat Heuristic" where
  "tieHeuristic a b = (if a = 1 \<or> a = 2 then float64 5 else 0)"

text \<open>
  In \<open>roundingGraph\<close> the goal 2 is reached from 0 directly at cost 1 and through node 1
  at cost 0.25 + 0.25; \<open>roundingHeuristic\<close> estimates the goal itself at \<open>2 ^ 53\<close>, where
  the spacing of \<open>float64\<close> is 2.
\<close>

definition roundingGraph :: "nat Graph" where
  "roundingGraph n =
     (if n = 0 then [\<lparr>ID = 1, Cost = ldexp 1 (- 2)\<rparr>, \<lparr>ID = 2, Cost = float64 1\<rparr>]
      else if n = 1 then [\<lparr>ID = 2, Cost = ldexp 1 (- 2)\<rparr>]
      else [])"

definition roundingHeuristic :: "nat Heuristic" where
  "roundingHeuristic a b = (if a = 2 then ldexp 1 53 else 0)"

section \<open>The heap functions keep the items and the queue's contents\<close>

text \<open>
  Whatever the order in the queue and the recorded indices are, \<open>Swap\<close>, \<open>up\<close> and
  \<open>down\<close> permute the queue and change nothing in an item but \<open>IndexInQueue\<close>.
\<close>

lemma payload_update_index:
  "payload (m[a := (m ! a)\<lparr>IndexInQueue := i\<rparr>]) = payload m"
  by (cases "a < length m")
     (simp_all add: payload_def map_update list_update_same_conv list_update_beyond)

lemma length_payload: "length (payload m) = length m"
  by (simp add: payload_def)

lemma payload_length_eq: "payload m' = payload m \<Longrightarrow> length m' = length m"
  by (metis length_payload)

lemma payload_nth:
  "a < length m \<Longrightarrow> payload m ! a = (Node (m ! a), GScore (m ! a), FCost (m ! a))"
  by (simp add: payload_def)

lemma payload_fields:
  assumes "payload m' = payload m" and "a < length m"
  shows "Node (m' ! a) = Node (m ! a)" and "GScore (m' ! a) = GScore (m ! a)"
    and "FCost (m' ! a) = FCost (m ! a)"
proof -
  have "a < length m'" using assms payload_length_eq by metis
  then have "payload m' ! a = (Node (m' ! a), GScore (m' ! a), FCost (m' ! a))"
    by (rule payload_nth)
  moreover have "payload m ! a = (Node (m ! a), GScore (m ! a), FCost (m ! a))"
    using assms(2) by (rule payload_nth)
  ultimately show "Node (m' ! a) = Node (m ! a)" and "GScore (m' ! a) = GScore (m ! a)"
    and "FCost (m' ! a) = FCost (m ! a)"
    using assms(1) by simp_all
qed

lemma keeps_refl: "keeps pq pq"
  by (simp add: keeps_def)

lemma keeps_trans: "keeps a b \<Longrightarrow> keeps b c \<Longrightarrow> keeps a c"
  by (simp add: keeps_def)

lemma keeps_length: "keeps pq pq' \<Longrightarrow> length (snd pq') = length (snd pq)"
  by (metis keeps_def size_mset)

lemma Swap_keeps:
  assumes "i < length (snd pq)" and "j < length (snd pq)"
  shows "keeps pq (Swap pq i j)"
proof -
  have "payload (fst (Swap pq i j)) = payload (fst pq)"
    by (simp add: Swap_def Let_def payload_update_index)
  moreover have "mset (snd (Swap pq i j)) = mset (snd pq)"
    using assms by (simp add: Swap_def Let_def mset_swap)
  ultimately show ?thesis by (simp add: keeps_def)
qed

lemma up_keeps: "j < length (snd pq) \<Longrightarrow> keeps pq (up pq j)"
proof (induction pq j rule: up.induct)
  case (1 pq j)
  define i where "i = (j - 1) div 2"
  show ?case
  proof (cases "i = j \<or> \<not> Less pq j i")
    case True
    then have "up pq j = pq" by (subst up.simps) (simp add: Let_def i_def)
    then show ?thesis by (simp add: keeps_refl)
  next
    case False
    have i: "i < length (snd pq)" using "1.prems" by (simp add: i_def)
    have step: "up pq j = up (Swap pq i j) i"
      using False by (subst up.simps) (simp add: Let_def i_def)
    have k1: "keeps pq (Swap pq i j)" using i "1.prems" by (rule Swap_keeps)
    then have "i < length (snd (Swap pq i j))" using i by (simp add: keeps_length)
    with "1.IH"[OF i_def] False have "keeps (Swap pq i j) (up (Swap pq i j) i)" by simp
    with k1 show ?thesis unfolding step by (rule keeps_trans)
  qed
qed

lemma down_loop_keeps:
  "n \<le> length (snd pq) \<Longrightarrow> keeps pq (fst (down_loop pq i n))"
proof (induction pq i n rule: down_loop.induct)
  case (1 pq i n)
  define j1 where "j1 = 2 * i + 1"
  define j where "j = (if j1 + 1 < n \<and> Less pq (j1 + 1) j1 then j1 + 1 else j1)"
  show ?case
  proof (cases "j1 \<ge> n \<or> \<not> Less pq j i")
    case True
    then have "down_loop pq i n = (pq, i)"
      by (subst down_loop.simps) (auto simp: Let_def j1_def j_def)
    then show ?thesis by (simp add: keeps_refl)
  next
    case False
    then have j: "j < n" and i: "i < n" by (auto simp: j_def j1_def split: if_splits)
    have step: "down_loop pq i n = down_loop (Swap pq i j) j n"
      using False by (subst down_loop.simps) (auto simp: Let_def j1_def j_def)
    have k1: "keeps pq (Swap pq i j)" using i j "1.prems" by (intro Swap_keeps) linarith+
    then have "n \<le> length (snd (Swap pq i j))" using "1.prems" by (simp add: keeps_length)
    moreover have "\<not> n \<le> j1" and "\<not> \<not> Less pq j i" using False by auto
    ultimately have "keeps (Swap pq i j) (fst (down_loop (Swap pq i j) j n))"
      using "1.IH"[OF j1_def _ j_def] by blast
    with k1 show ?thesis unfolding step by (rule keeps_trans)
  qed
qed

lemma down_keeps: "n \<le> length (snd pq) \<Longrightarrow> keeps pq (fst (down pq i n))"
  using down_loop_keeps[of n pq i] by (cases "down_loop pq i n") (simp add: down_def)

lemma heap_Push_keeps: "keeps (fst pq, snd pq @ [x]) (heap_Push pq x)"
  using up_keeps[of "length (snd pq)" "(fst pq, snd pq @ [x])"]
  by (simp add: heap_Push_def Push_def Len_def Let_def)

lemma heap_Fix_keeps: "heap_Fix pq i = Some pq' \<Longrightarrow> keeps pq pq'"
proof -
  assume a: "heap_Fix pq i = Some pq'"
  obtain pq1 moved where d: "down pq i (Len pq) = (pq1, moved)" by (cases "down pq i (Len pq)")
  have k1: "keeps pq pq1" using down_keeps[of "Len pq" pq i] d by (simp add: Len_def)
  show ?thesis
  proof (cases moved)
    case True
    with a d have "pq' = pq1" by (simp add: heap_Fix_def)
    with k1 show ?thesis by simp
  next
    case False
    with a d have ok: "\<not> (i \<noteq> 0 \<and> i \<ge> Len pq1)" and pq': "pq' = up pq1 i"
      by (auto simp: heap_Fix_def split: if_splits)
    show ?thesis
    proof (cases "i < Len pq1")
      case True
      then have "keeps pq1 (up pq1 i)" by (intro up_keeps) (simp add: Len_def)
      with k1 pq' show ?thesis using keeps_trans by blast
    next
      case False
      with ok have "i = 0" by simp
      then have "up pq1 i = pq1" by (subst up.simps) simp
      with k1 pq' show ?thesis by simp
    qed
  qed
qed

lemma heap_Pop_keeps:
  assumes "heap_Pop pq = Some (pq', a)"
  shows "payload (fst pq') = payload (fst pq)" and "mset (snd pq) = mset (snd pq') + {#a#}"
proof -
  from assms have ne: "Len pq \<noteq> 0" by (auto simp: heap_Pop_def split: if_splits)
  define n where "n = Len pq - 1"
  define pq1 where "pq1 = Swap pq 0 n"
  define pq2 where "pq2 = fst (down pq1 0 n)"
  have n: "n < length (snd pq)" using ne by (simp add: n_def Len_def)
  then have k1: "keeps pq pq1" unfolding pq1_def by (intro Swap_keeps) auto
  then have "n \<le> length (snd pq1)" using n by (simp add: keeps_length)
  then have "keeps pq1 pq2" unfolding pq2_def by (rule down_keeps)
  with k1 have k2: "keeps pq pq2" by (rule keeps_trans)
  have res: "(pq', a) = Pop pq2" using assms ne
    by (simp add: heap_Pop_def Let_def n_def pq1_def pq2_def)
  have ne2: "snd pq2 \<noteq> []" using k2 n by (auto dest: keeps_length)
  from res show "payload (fst pq') = payload (fst pq)" using k2 by (simp add: Pop_def keeps_def)
  have "snd pq2 = butlast (snd pq2) @ [last (snd pq2)]" using ne2 by simp
  then have "mset (snd pq2) = mset (butlast (snd pq2)) + {#last (snd pq2)#}"
    by (metis mset.simps(1) mset.simps(2) mset_append)
  then show "mset (snd pq) = mset (snd pq') + {#a#}" using res k2 by (simp add: Pop_def keeps_def)
qed

lemma heap_Pop_Some: "snd pq \<noteq> [] \<Longrightarrow> \<exists>pq' a. heap_Pop pq = Some (pq', a)"
  by (simp add: heap_Pop_def Len_def Let_def Pop_def)

lemma heap_Pop_length:
  "heap_Pop pq = Some (pq', a) \<Longrightarrow> length (snd pq') < length (snd pq)"
  using heap_Pop_keeps(2)[of pq pq' a] by (metis add.commute less_add_one size_mset size_single size_union)

termination Step
  by (relation "measure (\<lambda>(arrival, ctx, s). length (openSet s))") (auto dest!: heap_Pop_length)

declare Step.simps [simp del]

lemma heap_Init_empty: "heap_Init ([], []) = ([], [])"
  by (simp add: heap_Init_def Len_def)

lemma up_zero: "up pq 0 = pq"
  by (subst up.simps) simp

lemma heap_Push_first: "heap_Push ([it], []) 0 = ([it], [0])"
  by (simp add: heap_Push_def Push_def Len_def up_zero)

lemma initialState_eq:
  "initialState start goalNode h =
     \<lparr>items = [\<lparr>Node = start, GScore = 0, FCost = h start goalNode, IndexInQueue = 0\<rparr>],
      openSet = [0], openSetMap = [start \<mapsto> 0], closedSet = {}, cameFrom = Map.empty,
      pathCostFromStart = [start \<mapsto> 0]\<rparr>"
  by (simp add: initialState_def heap_Init_empty heap_Push_first)

section \<open>The order of \<open>float64\<close> is transitive\<close>

lemma flt_Finite:
  "flt (Finite m1 e1) (Finite m2 e2) \<longleftrightarrow>
     real_of_int m1 * 2 powi e1 < real_of_int m2 * 2 powi e2"
proof -
  define e where "e = min e1 e2"
  have p: "(2::real) powi (k - e) = 2 powi k * 2 powi (- e)" for k
    by (simp add: power_int_diff power_int_minus field_simps)
  have n: "real_of_int (2 ^ nat (k - e)) = 2 powi (k - e)" if "e \<le> k" for k
    using that by (simp add: power_int_def)
  have "flt (Finite m1 e1) (Finite m2 e2) \<longleftrightarrow>
      real_of_int (m1 * 2 ^ nat (e1 - e)) < real_of_int (m2 * 2 ^ nat (e2 - e))"
    unfolding of_int_less_iff by (simp add: e_def Let_def)
  also have "\<dots> \<longleftrightarrow> real_of_int m1 * 2 powi (e1 - e) < real_of_int m2 * 2 powi (e2 - e)"
    using n[of e1] n[of e2] by (simp add: e_def)
  also have "\<dots> \<longleftrightarrow> (real_of_int m1 * 2 powi e1) * 2 powi (- e) <
      (real_of_int m2 * 2 powi e2) * 2 powi (- e)"
    by (simp only: p mult.assoc)
  also have "\<dots> \<longleftrightarrow> real_of_int m1 * 2 powi e1 < real_of_int m2 * 2 powi e2"
    by (rule mult_less_cancel_right_pos) simp
  finally show ?thesis .
qed

lemma flt_trans: "flt x y \<Longrightarrow> flt y z \<Longrightarrow> flt x z"
  by (cases x; cases y; cases z) (auto simp: flt_Finite simp del: flt.simps(1))

lemma less_float64_trans: "(x::float64) < y \<Longrightarrow> y < z \<Longrightarrow> x < z"
  unfolding less_float64_def by (rule flt_trans)

section \<open>The invariant is kept by a pop and by a received proposal\<close>

lemma state_inv_initial:
  "items st = [\<lparr>Node = start, GScore = g, FCost = f, IndexInQueue = 0\<rparr>] \<Longrightarrow>
   openSet st = [0] \<Longrightarrow> openSetMap st = [start \<mapsto> 0] \<Longrightarrow> closedSet st = {} \<Longrightarrow>
   cameFrom st = Map.empty \<Longrightarrow> pathCostFromStart st = [start \<mapsto> g'] \<Longrightarrow>
   state_inv G start st"
  by (simp add: state_inv_def frontier_ok_def links_ok_def started_def)

lemma trail_extend:
  assumes "\<forall>v \<in> C. \<exists>p. trail came start v p" and "v \<in> C"
    and "\<forall>x y. came x = Some y \<longrightarrow> y \<in> C" and "w \<notin> C"
  shows "\<exists>p. trail (came(w \<mapsto> u)) start v p"
proof -
  from assms(1,2) obtain p where "trail came start v p" by blast
  then show ?thesis using assms(2)
  proof (induction rule: trail.induct)
    case trail_start
    show ?case by (blast intro: trail.trail_start)
  next
    case (trail_link v y p)
    from trail_link.hyps(2) assms(3) have "y \<in> C" by blast
    with trail_link.IH obtain p' where "trail (came(w \<mapsto> u)) start y p'" by blast
    moreover have "(came(w \<mapsto> u)) v = Some y" using trail_link.hyps(2) trail_link.prems assms(4) by auto
    ultimately show ?case using trail_link.hyps(1) by (blast intro: trail.trail_link)
  qed
qed

lemma frontier_okD:
  assumes "frontier_ok start st" and "a \<in> set (openSet st)"
  shows "a < length (items st)"
    and "openSetMap st (Node (items st ! a)) = Some a"
    and "Node (items st ! a) \<notin> closedSet st"
    and "Node (items st ! a) = start \<or> cameFrom st (Node (items st ! a)) \<noteq> None"
  using assms unfolding frontier_ok_def by blast+

lemma frontier_ok_mapD:
  assumes "frontier_ok start st" and "openSetMap st v = Some a"
  shows "a \<in> set (openSet st)" and "Node (items st ! a) = v"
  using assms unfolding frontier_ok_def by blast+

lemma frontier_ok_distinct: "frontier_ok start st \<Longrightarrow> distinct (openSet st)"
  unfolding frontier_ok_def by blast

lemma frontier_ok_scored:
  "frontier_ok start st \<Longrightarrow> pathCostFromStart st v \<noteq> None \<Longrightarrow>
   v \<in> closedSet st \<or> openSetMap st v \<noteq> None"
  unfolding frontier_ok_def by blast

lemma links_okD:
  assumes "links_ok G start st" and "cameFrom st v = Some u"
  shows "u \<in> closedSet st" and "\<exists>nb \<in> set (G u). ID nb = v"
  using assms unfolding links_ok_def by blast+

lemma links_ok_trail:
  "links_ok G start st \<Longrightarrow> v \<in> closedSet st \<Longrightarrow> \<exists>p. trail (cameFrom st) start v p"
  unfolding links_ok_def by blast

lemma links_ok_start:
  assumes "links_ok G start st"
  shows "cameFrom st start = None" and "finite (closedSet st)"
  using assms unfolding links_ok_def by blast+

lemma payload_nodes: "payload m' = payload m \<Longrightarrow> map Node m' = map Node m"
proof -
  have n: "map Node x = map fst (payload x)" for x :: "'a PriorityQueueItem list"
    by (simp add: payload_def comp_def)
  assume "payload m' = payload m"
  then show ?thesis by (simp only: n)
qed

lemma keeps_nodes: "keeps pq pq' \<Longrightarrow> map Node (fst pq') = map Node (fst pq)"
  unfolding keeps_def by (blast intro: payload_nodes)

lemma nodes_nth:
  assumes "map Node m' = map Node m" and "a < length m"
  shows "Node (m' ! a) = Node (m ! a)"
proof -
  have "length m' = length m" using assms(1) by (metis length_map)
  with assms(2) have "Node (m' ! a) = map Node m' ! a" "Node (m ! a) = map Node m ! a"
    by simp_all
  then show ?thesis by (simp only: assms(1))
qed

lemma state_inv_pop:
  fixes st :: "('n, 'z) SearchState_scheme" and st' :: "('n, 'y) SearchState_scheme"
  assumes I: "state_inv G start st"
    and pop: "heap_Pop (items st, openSet st) = Some (pq, a)"
    and v: "v = Node (fst pq ! a)"
    and f: "items st' = fst pq" "openSet st' = snd pq"
           "openSetMap st' = (openSetMap st)(v := None)"
           "closedSet st' = insert v (closedSet st)" "cameFrom st' = cameFrom st"
           "pathCostFromStart st' = pathCostFromStart st"
  shows "v \<notin> closedSet st" and "state_inv G start st'"
    and "start \<in> closedSet st'" and "openSetMap st v \<noteq> None"
proof -
  from I have F: "frontier_ok start st" and L: "links_ok G start st"
    and S: "started start st" by (simp_all add: state_inv_def)
  have P: "payload (fst pq) = payload (items st)" using heap_Pop_keeps(1)[OF pop] by simp
  have N: "map Node (fst pq) = map Node (items st)" using P by (rule payload_nodes)
  have M: "mset (openSet st) = mset (snd pq @ [a])" using heap_Pop_keeps(2)[OF pop] by simp
  have dist: "distinct (snd pq @ [a])"
    using frontier_ok_distinct[OF F] mset_eq_imp_distinct_iff[OF M] by simp
  have sets: "set (openSet st) = insert a (set (snd pq))" using mset_eq_setD[OF M] by simp
  have a_in: "a \<in> set (openSet st)" using sets by simp
  have a_notin: "a \<notin> set (snd pq)" using dist by simp
  have len: "length (fst pq) = length (items st)" using payload_length_eq[OF P] .
  have old: "Node (fst pq ! b) = Node (items st ! b)" if "b \<in> set (openSet st)" for b
    using nodes_nth[OF N frontier_okD(1)[OF F that]] .
  have va: "v = Node (items st ! a)" using v old[OF a_in] by simp
  show nc: "v \<notin> closedSet st" using frontier_okD(3)[OF F a_in] va by simp
  show "openSetMap st v \<noteq> None" using frontier_okD(2)[OF F a_in] va by simp
  have other: "Node (items st ! b) \<noteq> v" if b: "b \<in> set (snd pq)" for b
  proof
    assume e: "Node (items st ! b) = v"
    from b sets have "b \<in> set (openSet st)" by simp
    then have "openSetMap st (Node (items st ! b)) = Some b" by (rule frontier_okD(2)[OF F])
    then have 1: "openSetMap st v = Some b" by (simp only: e)
    have "openSetMap st (Node (items st ! a)) = Some a" by (rule frontier_okD(2)[OF F a_in])
    then have 2: "openSetMap st v = Some a" by (simp only: va[symmetric])
    from 1 2 have "a = b" by simp
    with a_notin b show False by simp
  qed
  have F': "frontier_ok start st'"
    unfolding frontier_ok_def
  proof (intro conjI ballI allI impI)
    show "distinct (openSet st')" using dist f(2) by simp
  next
    fix b assume "b \<in> set (openSet st')"
    then have b: "b \<in> set (snd pq)" using f(2) by simp
    then have bo: "b \<in> set (openSet st)" using sets by simp
    note ob = old[OF bo] and nb = other[OF b] and Fb = frontier_okD[OF F bo]
    have e: "items st' ! b = fst pq ! b" using f(1) by simp
    show "b < length (items st')" using Fb(1) len f(1) by simp
    show "openSetMap st' (Node (items st' ! b)) = Some b" using ob nb Fb(2) f(3) e by simp
    show "Node (items st' ! b) \<notin> closedSet st'" using ob nb Fb(3) f(4) e by simp
    show "Node (items st' ! b) = start \<or> cameFrom st' (Node (items st' ! b)) \<noteq> None"
      using ob Fb(4) f(5) e by simp
  next
    fix w b assume "openSetMap st' w = Some b"
    then have wv: "w \<noteq> v" and m: "openSetMap st w = Some b" using f(3) by (auto split: if_splits)
    note mb = frontier_ok_mapD[OF F m]
    from mb(2) wv va have "b \<noteq> a" by auto
    with mb(1) sets show "b \<in> set (openSet st')" using f(2) by simp
    from old[OF mb(1)] mb(2) show "Node (items st' ! b) = w" using f(1) by simp
  next
    fix w assume "pathCostFromStart st' w \<noteq> None"
    then have "pathCostFromStart st w \<noteq> None" using f(6) by simp
    from frontier_ok_scored[OF F this]
    show "w \<in> closedSet st' \<or> openSetMap st' w \<noteq> None" using f(3,4) by auto
  qed
  have tr_v: "\<exists>p. trail (cameFrom st) start v p"
  proof (cases "v = start")
    case True
    then show ?thesis by (blast intro: trail_start)
  next
    case False
    with frontier_okD(4)[OF F a_in] va obtain u where u: "cameFrom st v = Some u" by auto
    from links_ok_trail[OF L links_okD(1)[OF L u]]
    obtain p where "trail (cameFrom st) start u p" by blast
    with False u show ?thesis by (blast intro: trail_link)
  qed
  have L': "links_ok G start st'"
    unfolding links_ok_def
  proof (intro conjI ballI allI impI)
    fix x y assume "cameFrom st' x = Some y"
    then have c: "cameFrom st x = Some y" using f(5) by simp
    show "y \<in> closedSet st'" using links_okD(1)[OF L c] f(4) by simp
    show "\<exists>nb \<in> set (G y). ID nb = x" using links_okD(2)[OF L c] .
  next
    fix x assume "x \<in> closedSet st'"
    then have "x = v \<or> x \<in> closedSet st" using f(4) by simp
    then show "\<exists>p. trail (cameFrom st') start x p"
      using tr_v links_ok_trail[OF L] f(5) by auto
  next
    show "cameFrom st' start = None" using links_ok_start(1)[OF L] f(5) by simp
    show "finite (closedSet st')" using links_ok_start(2)[OF L] f(4) by simp
  qed
  show st: "start \<in> closedSet st'"
  proof (cases "start \<in> closedSet st")
    case True
    then show ?thesis using f(4) by simp
  next
    case False
    with S a_in have "Node (items st ! a) = start" unfolding started_def by blast
    with va show ?thesis using f(4) by simp
  qed
  then have "started start st'" by (simp add: started_def)
  with F' L' show "state_inv G start st'" by (simp add: state_inv_def)
qed

lemma applyProposal_cases:
  assumes "applyProposal st p = Some st'"
  obtains
    (same) "st' = st" "ToNode p \<in> closedSet st \<or> \<not> improves st p"
  | (push) pq where "ToNode p \<notin> closedSet st" "improves st p" "openSetMap st (ToNode p) = None"
      "pq = heap_Push (items st @ [\<lparr>Node = ToNode p, GScore = propGScore p,
                 FCost = propFCost p, IndexInQueue = 0\<rparr>], openSet st) (length (items st))"
      "st' = st\<lparr>pathCostFromStart := (pathCostFromStart st)(ToNode p \<mapsto> propGScore p),
                cameFrom := (cameFrom st)(ToNode p \<mapsto> FromNode p),
                items := fst pq, openSet := snd pq,
                openSetMap := (openSetMap st)(ToNode p \<mapsto> length (items st))\<rparr>"
  | (decrease) a m pq where "ToNode p \<notin> closedSet st" "improves st p" "openSetMap st (ToNode p) = Some a"
      "propFCost p < FCost (items st ! a)"
      "m = (items st)[a := (items st ! a)\<lparr>GScore := propGScore p, FCost := propFCost p\<rparr>]"
      "heap_Fix (m, openSet st) (IndexInQueue (m ! a)) = Some pq"
      "st' = st\<lparr>pathCostFromStart := (pathCostFromStart st)(ToNode p \<mapsto> propGScore p),
                cameFrom := (cameFrom st)(ToNode p \<mapsto> FromNode p),
                items := fst pq, openSet := snd pq\<rparr>"
  | (keep) a where "ToNode p \<notin> closedSet st" "improves st p" "openSetMap st (ToNode p) = Some a"
      "\<not> propFCost p < FCost (items st ! a)"
      "st' = st\<lparr>pathCostFromStart := (pathCostFromStart st)(ToNode p \<mapsto> propGScore p),
                cameFrom := (cameFrom st)(ToNode p \<mapsto> FromNode p)\<rparr>"
proof (cases "ToNode p \<in> closedSet st \<or> \<not> improves st p")
  case True
  with assms have "st' = st" by (auto simp: applyProposal_def improves_def split: if_splits)
  then show ?thesis using True by (rule same)
next
  case False
  then have nc: "ToNode p \<notin> closedSet st" and imp: "improves st p" by simp_all
  show ?thesis
  proof (cases "openSetMap st (ToNode p)")
    case None
    with assms nc imp show ?thesis
      by (intro push[OF nc imp None refl]) (simp add: applyProposal_def improves_def Let_def)
  next
    case (Some a)
    show ?thesis
    proof (cases "propFCost p < FCost (items st ! a)")
      case lt: True
      define m where "m = (items st)[a := (items st ! a)\<lparr>GScore := propGScore p, FCost := propFCost p\<rparr>]"
      from assms nc imp Some lt obtain pq where
        "heap_Fix (m, openSet st) (IndexInQueue (m ! a)) = Some pq"
        "st' = st\<lparr>pathCostFromStart := (pathCostFromStart st)(ToNode p \<mapsto> propGScore p),
                cameFrom := (cameFrom st)(ToNode p \<mapsto> FromNode p),
                items := fst pq, openSet := snd pq\<rparr>"
        by (auto simp: applyProposal_def improves_def Let_def m_def split: option.splits)
      with nc imp Some lt m_def show ?thesis by (intro decrease)
    next
      case ge: False
      with assms nc imp Some show ?thesis
        by (intro keep[OF nc imp Some ge]) (simp add: applyProposal_def improves_def Let_def)
    qed
  qed
qed

lemma links_ok_relax:
  fixes st :: "('n, 'z) SearchState_scheme" and st' :: "('n, 'y) SearchState_scheme"
  assumes L: "links_ok G start st" and S: "start \<in> closedSet st"
    and ok: "proposal_ok G st p" and nc: "ToNode p \<notin> closedSet st"
    and f: "closedSet st' = closedSet st"
           "cameFrom st' = (cameFrom st)(ToNode p \<mapsto> FromNode p)"
  shows "links_ok G start st'"
proof -
  define w where "w = ToNode p"
  define u where "u = FromNode p"
  have uc: "u \<in> closedSet st" using ok by (simp add: proposal_ok_def u_def)
  have wc: "w \<notin> closedSet st" using nc by (simp add: w_def)
  have sw: "start \<noteq> w" using S wc by auto
  from ok obtain nb where nb: "nb \<in> set (G u)" "ID nb = w"
    by (auto simp: proposal_ok_def u_def w_def)
  have cf: "cameFrom st' = (cameFrom st)(w \<mapsto> u)" using f(2) by (simp add: w_def u_def)
  show ?thesis
    unfolding links_ok_def
  proof (intro conjI ballI allI impI)
    fix x y assume xy: "cameFrom st' x = Some y"
    show "y \<in> closedSet st'"
    proof (cases "x = w")
      case True
      with xy cf have "y = u" by simp
      with uc f(1) show ?thesis by simp
    next
      case False
      with xy cf have "cameFrom st x = Some y" by simp
      from links_okD(1)[OF L this] f(1) show ?thesis by simp
    qed
    show "\<exists>nb \<in> set (G y). ID nb = x"
    proof (cases "x = w")
      case True
      with xy cf have "y = u" by simp
      with nb True show ?thesis by blast
    next
      case False
      with xy cf have "cameFrom st x = Some y" by simp
      from links_okD(2)[OF L this] show ?thesis .
    qed
  next
    fix x assume "x \<in> closedSet st'"
    then have x: "x \<in> closedSet st" using f(1) by simp
    have "\<exists>q. trail ((cameFrom st)(w \<mapsto> u)) start x q"
    proof (rule trail_extend[where C = "closedSet st"])
      show "\<forall>v \<in> closedSet st. \<exists>q. trail (cameFrom st) start v q"
        using links_ok_trail[OF L] by blast
      show "x \<in> closedSet st" by (rule x)
      show "\<forall>x y. cameFrom st x = Some y \<longrightarrow> y \<in> closedSet st"
        using links_okD(1)[OF L] by blast
      show "w \<notin> closedSet st" by (rule wc)
    qed
    then show "\<exists>q. trail (cameFrom st') start x q" using cf by simp
  next
    show "cameFrom st' start = None" using links_ok_start(1)[OF L] cf sw by simp
    show "finite (closedSet st')" using links_ok_start(2)[OF L] f(1) by simp
  qed
qed

text \<open>
  The frontier stays well-formed when the queue is rearranged, the scores of queued
  items change and queued nodes get a predecessor and a g-score.
\<close>

lemma frontier_ok_requeue:
  fixes st :: "('n, 'z) SearchState_scheme" and st' :: "('n, 'y) SearchState_scheme"
  assumes F: "frontier_ok start st"
    and N: "map Node (items st') = map Node (items st)"
    and M: "mset (openSet st') = mset (openSet st)"
    and f: "openSetMap st' = openSetMap st" "closedSet st' = closedSet st"
    and cf: "\<And>x. cameFrom st x \<noteq> None \<Longrightarrow> cameFrom st' x \<noteq> None"
    and sc: "\<And>x. pathCostFromStart st' x \<noteq> None \<Longrightarrow>
               pathCostFromStart st x \<noteq> None \<or> openSetMap st x \<noteq> None"
  shows "frontier_ok start st'"
proof -
  have sets: "set (openSet st') = set (openSet st)" using mset_eq_setD[OF M] .
  have len: "length (items st') = length (items st)" using N by (metis length_map)
  have same: "Node (items st' ! b) = Node (items st ! b)" if "b \<in> set (openSet st)" for b
    using nodes_nth[OF N frontier_okD(1)[OF F that]] .
  show ?thesis
    unfolding frontier_ok_def
  proof (intro conjI ballI allI impI)
    show "distinct (openSet st')"
      using frontier_ok_distinct[OF F] mset_eq_imp_distinct_iff[OF M] by simp
  next
    fix b assume "b \<in> set (openSet st')"
    then have bo: "b \<in> set (openSet st)" using sets by simp
    note sb = same[OF bo] and Fb = frontier_okD[OF F bo]
    show "b < length (items st')" using Fb(1) len by simp
    show "openSetMap st' (Node (items st' ! b)) = Some b" using sb Fb(2) f(1) by simp
    show "Node (items st' ! b) \<notin> closedSet st'" using sb Fb(3) f(2) by simp
    show "Node (items st' ! b) = start \<or> cameFrom st' (Node (items st' ! b)) \<noteq> None"
      using sb Fb(4) cf by auto
  next
    fix w b assume "openSetMap st' w = Some b"
    then have m: "openSetMap st w = Some b" using f(1) by simp
    note mb = frontier_ok_mapD[OF F m]
    show "b \<in> set (openSet st')" using mb(1) sets by simp
    show "Node (items st' ! b) = w" using same[OF mb(1)] mb(2) by simp
  next
    fix w assume "pathCostFromStart st' w \<noteq> None"
    from sc[OF this] frontier_ok_scored[OF F, of w]
    show "w \<in> closedSet st' \<or> openSetMap st' w \<noteq> None" using f by auto
  qed
qed

lemma frontier_ok_push:
  fixes st :: "('n, 'z) SearchState_scheme" and st' :: "('n, 'y) SearchState_scheme"
  assumes F: "frontier_ok start st"
    and nc: "w \<notin> closedSet st" and none: "openSetMap st w = None"
    and f: "items st' = items st @ [\<lparr>Node = w, GScore = pg, FCost = pf, IndexInQueue = 0\<rparr>]"
           "openSet st' = openSet st @ [length (items st)]"
           "openSetMap st' = (openSetMap st)(w \<mapsto> length (items st))"
           "closedSet st' = closedSet st"
           "cameFrom st' = (cameFrom st)(w \<mapsto> u)"
           "pathCostFromStart st' = (pathCostFromStart st)(w \<mapsto> pg)"
  shows "frontier_ok start st'"
proof -
  define n where "n = length (items st)"
  have old_lt: "b < n" if "b \<in> set (openSet st)" for b
    using frontier_okD(1)[OF F that] by (simp add: n_def)
  have n_notin: "n \<notin> set (openSet st)" using old_lt by blast
  have old_item: "items st' ! b = items st ! b" if "b \<in> set (openSet st)" for b
    using old_lt[OF that] f(1) by (simp add: nth_append n_def)
  have new_item: "items st' ! n = \<lparr>Node = w, GScore = pg, FCost = pf, IndexInQueue = 0\<rparr>"
    using f(1) by (simp add: n_def)
  have old_node: "Node (items st ! b) \<noteq> w" if "b \<in> set (openSet st)" for b
    using frontier_okD(2)[OF F that] none by auto
  show ?thesis
    unfolding frontier_ok_def
  proof (intro conjI ballI allI impI)
    show "distinct (openSet st')" using frontier_ok_distinct[OF F] n_notin f(2) by (simp add: n_def)
  next
    fix b assume "b \<in> set (openSet st')"
    then consider (new) "b = n" | (old) "b \<in> set (openSet st)" using f(2) by (auto simp: n_def)
    then have "b < length (items st') \<and>
      openSetMap st' (Node (items st' ! b)) = Some b \<and>
      Node (items st' ! b) \<notin> closedSet st' \<and>
      (Node (items st' ! b) = start \<or> cameFrom st' (Node (items st' ! b)) \<noteq> None)"
    proof cases
      case new
      have "b < length (items st')" using new f(1) by (simp add: n_def)
      moreover have "openSetMap st' w = Some n" using f(3) by (simp add: n_def)
      moreover have "w \<notin> closedSet st'" using nc f(4) by simp
      moreover have "cameFrom st' w \<noteq> None" using f(5) by simp
      ultimately show ?thesis using new new_item by simp
    next
      case old
      note Fb = frontier_okD[OF F old] and e = old_item[OF old] and nw = old_node[OF old]
      have "b < length (items st')" using Fb(1) f(1) by simp
      moreover have "openSetMap st' (Node (items st ! b)) = Some b" using Fb(2) nw f(3) by simp
      moreover have "Node (items st ! b) \<notin> closedSet st'" using Fb(3) f(4) by simp
      moreover have "Node (items st ! b) = start \<or> cameFrom st' (Node (items st ! b)) \<noteq> None"
        using Fb(4) nw f(5) by simp
      ultimately show ?thesis using e by simp
    qed
    then show "b < length (items st')"
      and "openSetMap st' (Node (items st' ! b)) = Some b"
      and "Node (items st' ! b) \<notin> closedSet st'"
      and "Node (items st' ! b) = start \<or> cameFrom st' (Node (items st' ! b)) \<noteq> None"
      by blast+
  next
    fix x b assume m: "openSetMap st' x = Some b"
    show "b \<in> set (openSet st')"
    proof (cases "x = w")
      case True
      with m f(3) have "b = n" by (simp add: n_def)
      then show ?thesis using f(2) by (simp add: n_def)
    next
      case False
      with m f(3) have "openSetMap st x = Some b" by simp
      from frontier_ok_mapD(1)[OF F this] show ?thesis using f(2) by simp
    qed
    show "Node (items st' ! b) = x"
    proof (cases "x = w")
      case True
      with m f(3) have "b = n" by (simp add: n_def)
      then show ?thesis using new_item True by simp
    next
      case False
      with m f(3) have m': "openSetMap st x = Some b" by simp
      from frontier_ok_mapD[OF F m'] old_item show ?thesis by simp
    qed
  next
    fix x assume s: "pathCostFromStart st' x \<noteq> None"
    show "x \<in> closedSet st' \<or> openSetMap st' x \<noteq> None"
    proof (cases "x = w")
      case True
      then show ?thesis using f(3) by simp
    next
      case False
      with s f(6) have "pathCostFromStart st x \<noteq> None" by simp
      from frontier_ok_scored[OF F this] show ?thesis using False f(3,4) by simp
    qed
  qed
qed

text \<open>
  One received proposal keeps the invariant and the closed set, never removes a node
  from the index of the queue, and leaves its target closed or queued.
\<close>

lemma applyProposal_inv:
  assumes I: "state_inv G start st" and S: "start \<in> closedSet st"
    and ok: "proposal_ok G st p" and ap: "applyProposal st p = Some st'"
  shows "state_inv G start st'" and "closedSet st' = closedSet st"
    and "\<forall>x. openSetMap st x \<noteq> None \<longrightarrow> openSetMap st' x \<noteq> None"
    and "ToNode p \<in> closedSet st' \<or> openSetMap st' (ToNode p) \<noteq> None"
    and "SearchState.more st' = SearchState.more st"
proof -
  from I have F: "frontier_ok start st" and L: "links_ok G start st"
    by (simp_all add: state_inv_def)
  have st: "\<And>s. closedSet s = closedSet st \<Longrightarrow> started start s" using S by (simp add: started_def)
  from ap have "state_inv G start st' \<and> closedSet st' = closedSet st \<and>
    (\<forall>x. openSetMap st x \<noteq> None \<longrightarrow> openSetMap st' x \<noteq> None) \<and>
    (ToNode p \<in> closedSet st' \<or> openSetMap st' (ToNode p) \<noteq> None) \<and>
    SearchState.more st' = SearchState.more st"
  proof (cases rule: applyProposal_cases)
    case same
    from same(2) have "ToNode p \<in> closedSet st \<or> openSetMap st (ToNode p) \<noteq> None"
    proof
      assume "ToNode p \<in> closedSet st"
      then show ?thesis by simp
    next
      assume "\<not> improves st p"
      then have "pathCostFromStart st (ToNode p) \<noteq> None"
        by (auto simp: improves_def split: option.splits)
      from frontier_ok_scored[OF F this] show ?thesis .
    qed
    then show ?thesis using I same(1) by simp
  next
    case (push pq)
    define mid where "mid = st\<lparr>pathCostFromStart := (pathCostFromStart st)(ToNode p \<mapsto> propGScore p),
                cameFrom := (cameFrom st)(ToNode p \<mapsto> FromNode p),
                items := items st @ [\<lparr>Node = ToNode p, GScore = propGScore p,
                 FCost = propFCost p, IndexInQueue = 0\<rparr>],
                openSet := openSet st @ [length (items st)],
                openSetMap := (openSetMap st)(ToNode p \<mapsto> length (items st))\<rparr>"
    have Fm: "frontier_ok start mid"
      by (rule frontier_ok_push[OF F push(1) push(3)]) (simp_all add: mid_def)
    have k: "keeps (items mid, openSet mid) (items st', openSet st')"
      using heap_Push_keeps[of "(items st @ [\<lparr>Node = ToNode p, GScore = propGScore p,
                 FCost = propFCost p, IndexInQueue = 0\<rparr>], openSet st)" "length (items st)"]
      by (simp add: mid_def push(4,5))
    have F': "frontier_ok start st'"
    proof (rule frontier_ok_requeue[OF Fm])
      show "map Node (items st') = map Node (items mid)" using keeps_nodes[OF k] by simp
      show "mset (openSet st') = mset (openSet mid)" using k by (simp add: keeps_def)
    qed (simp_all add: mid_def push(5))
    have L': "links_ok G start st'"
      by (rule links_ok_relax[OF L S ok push(1)]) (simp_all add: push(5))
    have c: "closedSet st' = closedSet st" by (simp add: push(5))
    have "\<forall>x. openSetMap st x \<noteq> None \<longrightarrow> openSetMap st' x \<noteq> None" by (simp add: push(5))
    moreover have "openSetMap st' (ToNode p) \<noteq> None" by (simp add: push(5))
    moreover have "SearchState.more st' = SearchState.more st" by (simp add: push(5))
    ultimately show ?thesis using F' L' st[OF c] c by (simp add: state_inv_def)
  next
    case (decrease a m pq)
    have k: "keeps (m, openSet st) (items st', openSet st')"
      using heap_Fix_keeps[OF decrease(6)] by (simp add: decrease(7))
    have "a < length (items st)" using frontier_okD(1)[OF F frontier_ok_mapD(1)[OF F decrease(3)]] .
    then have nm: "map Node m = map Node (items st)"
      by (simp add: decrease(5) map_update list_update_same_conv)
    have F': "frontier_ok start st'"
    proof (rule frontier_ok_requeue[OF F])
      show "map Node (items st') = map Node (items st)" using keeps_nodes[OF k] nm by simp
      show "mset (openSet st') = mset (openSet st)" using k by (simp add: keeps_def)
      show "\<And>x. pathCostFromStart st' x \<noteq> None \<Longrightarrow>
               pathCostFromStart st x \<noteq> None \<or> openSetMap st x \<noteq> None"
        using decrease(3) by (auto simp: decrease(7) split: if_splits)
    qed (simp_all add: decrease(7))
    have L': "links_ok G start st'"
      by (rule links_ok_relax[OF L S ok decrease(1)]) (simp_all add: decrease(7))
    have c: "closedSet st' = closedSet st" by (simp add: decrease(7))
    have "\<forall>x. openSetMap st x \<noteq> None \<longrightarrow> openSetMap st' x \<noteq> None" by (simp add: decrease(7))
    moreover have "openSetMap st' (ToNode p) \<noteq> None" using decrease(3) by (simp add: decrease(7))
    moreover have "SearchState.more st' = SearchState.more st" by (simp add: decrease(7))
    ultimately show ?thesis using F' L' st[OF c] c by (simp add: state_inv_def)
  next
    case (keep a)
    have F': "frontier_ok start st'"
    proof (rule frontier_ok_requeue[OF F])
      show "\<And>x. pathCostFromStart st' x \<noteq> None \<Longrightarrow>
               pathCostFromStart st x \<noteq> None \<or> openSetMap st x \<noteq> None"
        using keep(3) by (auto simp: keep(5) split: if_splits)
    qed (simp_all add: keep(5))
    have L': "links_ok G start st'"
      by (rule links_ok_relax[OF L S ok keep(1)]) (simp_all add: keep(5))
    have c: "closedSet st' = closedSet st" by (simp add: keep(5))
    have "\<forall>x. openSetMap st x \<noteq> None \<longrightarrow> openSetMap st' x \<noteq> None" by (simp add: keep(5))
    moreover have "openSetMap st' (ToNode p) \<noteq> None" using keep(3) by (simp add: keep(5))
    moreover have "SearchState.more st' = SearchState.more st" by (simp add: keep(5))
    ultimately show ?thesis using F' L' st[OF c] c by (simp add: state_inv_def)
  qed
  then show "state_inv G start st'" and "closedSet st' = closedSet st"
    and "\<forall>x. openSetMap st x \<noteq> None \<longrightarrow> openSetMap st' x \<noteq> None"
    and "ToNode p \<in> closedSet st' \<or> openSetMap st' (ToNode p) \<noteq> None"
    and "SearchState.more st' = SearchState.more st"
    by blast+
qed

lemma proposal_ok_mono:
  assumes "proposal_ok G st p" and "closedSet st' = closedSet st"
  shows "proposal_ok G st' p"
  using assms unfolding proposal_ok_def by auto

text \<open>
  The collecting loop keeps the invariant, also when it is left through the
  \<open>ctx.Done()\<close> case; when it runs to its end, the target of every proposal is closed
  or queued.
\<close>

lemma collect_inv:
  assumes "state_inv G start st" and "start \<in> closedSet st"
    and "\<forall>p \<in> set ps. proposal_ok G st p" and "collect c i st ps = Some (st', cancelled)"
  shows "state_inv G start st' \<and> closedSet st' = closedSet st \<and>
         (\<forall>x. openSetMap st x \<noteq> None \<longrightarrow> openSetMap st' x \<noteq> None) \<and>
         (\<not> cancelled \<longrightarrow> (\<forall>p \<in> set ps. ToNode p \<in> closedSet st' \<or> openSetMap st' (ToNode p) \<noteq> None)) \<and>
         SearchState.more st' = SearchState.more st"
  using assms
proof (induction ps arbitrary: st i)
  case Nil
  then show ?case by simp
next
  case (Cons p ps)
  show ?case
  proof (cases "c = DoneAt i")
    case True
    with Cons.prems(4) have "st' = st" "cancelled" by simp_all
    with Cons.prems(1) show ?thesis by simp
  next
    case False
    with Cons.prems(4) obtain st1 where a: "applyProposal st p = Some st1"
      and c: "collect c (Suc i) st1 ps = Some (st', cancelled)" by (auto split: option.splits)
    have okp: "proposal_ok G st p" using Cons.prems(3) by simp
    note A = applyProposal_inv[OF Cons.prems(1,2) okp a]
    have "\<forall>q \<in> set ps. proposal_ok G st1 q"
      using Cons.prems(3) proposal_ok_mono[OF _ A(2)] by simp
    moreover have "start \<in> closedSet st1" using A(2) Cons.prems(2) by simp
    ultimately have IH: "state_inv G start st' \<and> closedSet st' = closedSet st1 \<and>
         (\<forall>x. openSetMap st1 x \<noteq> None \<longrightarrow> openSetMap st' x \<noteq> None) \<and>
         (\<not> cancelled \<longrightarrow> (\<forall>p \<in> set ps. ToNode p \<in> closedSet st' \<or> openSetMap st' (ToNode p) \<noteq> None)) \<and>
         SearchState.more st' = SearchState.more st1"
      using Cons.IH[OF A(1) _ _ c] by blast
    have "ToNode p \<in> closedSet st' \<or> openSetMap st' (ToNode p) \<noteq> None"
      using A(4) IH by auto
    with IH A(2,3,5) show ?thesis by auto
  qed
qed

lemma expand_inv:
  assumes I: "state_inv G start st" and S: "start \<in> closedSet st"
    and perm: "permutes arrival"
    and cur: "Node currentItem \<in> closedSet st"
    and ex: "expand arrival ctx G goalNode h W currentItem st = Some (st', cancelled)"
  shows "state_inv G start st' \<and> closedSet st' = closedSet st \<and>
         (\<forall>x. openSetMap st x \<noteq> None \<longrightarrow> openSetMap st' x \<noteq> None) \<and>
         (\<not> cancelled \<longrightarrow> (\<forall>nb \<in> set (G (Node currentItem)).
            ID nb \<in> closedSet st' \<or> openSetMap st' (ID nb) \<noteq> None)) \<and>
         SearchState.more st' = SearchState.more st"
proof -
  define tasks where "tasks = map (\<lambda>neighbor. \<lparr>taskFromNode = Node currentItem, taskNeighbor = neighbor,
                                     CurrentGScore = GScore currentItem, GoalNode = goalNode,
                                     HeuristicFunc = h\<rparr>) (G (Node currentItem))"
  define ps where "ps = (if tasks = [] then [] else arrival (map worker tasks))"
  from ex have c: "collect (ctx (map worker tasks)) 0 st ps = Some (st', cancelled)"
    by (auto simp: expand_def dispatch_def Let_def tasks_def ps_def split: option.splits if_splits)
  have "set (arrival (map worker tasks)) = set (map worker tasks)"
    using perm mset_eq_setD unfolding permutes_def by blast
  then have sets: "set ps = set (map worker tasks)" by (simp add: ps_def)
  have "\<forall>p \<in> set (map worker tasks). proposal_ok G st p"
    using cur by (auto simp: tasks_def worker_def proposal_ok_def Let_def)
  with sets have "\<forall>p \<in> set ps. proposal_ok G st p" by simp
  from collect_inv[OF I S this c]
  have C: "state_inv G start st'" "closedSet st' = closedSet st"
    "\<forall>x. openSetMap st x \<noteq> None \<longrightarrow> openSetMap st' x \<noteq> None"
    "\<not> cancelled \<longrightarrow> (\<forall>p \<in> set ps. ToNode p \<in> closedSet st' \<or> openSetMap st' (ToNode p) \<noteq> None)"
    "SearchState.more st' = SearchState.more st" by blast+
  have "ID nb \<in> closedSet st' \<or> openSetMap st' (ID nb) \<noteq> None"
    if "\<not> cancelled" and nb: "nb \<in> set (G (Node currentItem))" for nb
  proof -
    define p where "p = worker \<lparr>taskFromNode = Node currentItem, taskNeighbor = nb,
                  CurrentGScore = GScore currentItem, GoalNode = goalNode,
                  HeuristicFunc = h\<rparr>"
    have "p \<in> set ps" using nb sets by (simp add: tasks_def p_def)
    with C(4) that(1) have "ToNode p \<in> closedSet st' \<or> openSetMap st' (ToNode p) \<noteq> None"
      by blast
    moreover have "ToNode p = ID nb" by (simp add: p_def worker_def Let_def)
    ultimately show ?thesis by simp
  qed
  with C show ?thesis by blast
qed

section \<open>\<open>Search\<close> and the \<open>Stepper\<close> on the same search state\<close>

lemma applyProposal_same_core:
  assumes "same_core st s"
  shows "rel_option same_core (applyProposal st p) (applyProposal s p)"
  using assms
  by (simp add: applyProposal_def same_core_def Let_def split: option.split)

lemma collect_same_core:
  "same_core st s \<Longrightarrow>
   rel_option (rel_prod same_core (=)) (collect c i st ps) (collect c i s ps)"
proof (induction ps arbitrary: st s i)
  case Nil
  then show ?case by simp
next
  case (Cons p ps)
  show ?case
  proof (cases "c = DoneAt i")
    case True
    with Cons.prems show ?thesis by simp
  next
    case False
    from applyProposal_same_core[OF Cons.prems, of p] False show ?thesis
      by (cases "applyProposal st p"; cases "applyProposal s p") (simp_all add: Cons.IH)
  qed
qed

lemma expand_same_core:
  "same_core st s \<Longrightarrow>
   rel_option (rel_prod same_core (=))
     (expand arrival ctx G goalNode h W it st) (expand arrival ctx G goalNode h W it s)"
  by (simp add: expand_def Let_def dispatch_def collect_same_core)

section \<open>The invariant holds in every reachable state\<close>

lemma Search_iteration_empty:
  "openSet st = [] \<Longrightarrow>
   Search_iteration arrival ctx G start goalNode h W st =
     Some (Inr (\<lparr>Path = [], TotalCost = 0, ExpandedNodes = expandedNodes st, Found = False\<rparr>,
                Some NoPathFound))"
  by (simp add: Search_iteration_def Len_def)

lemma Search_iteration_pop:
  assumes "heap_Pop (items st, openSet st) = Some (pq, a)"
    and "Node (fst pq ! a) \<notin> closedSet st"
  shows "Search_iteration arrival ctx G start goalNode h W st =
     (let st2 = st\<lparr>items := fst pq, openSet := snd pq,
                    openSetMap := (openSetMap st)(Node (fst pq ! a) := None),
                    closedSet := insert (Node (fst pq ! a)) (closedSet st),
                    expandedNodes := expandedNodes st + 1\<rparr>
      in if Node (fst pq ! a) = goalNode then
           (case reconstructPath (cameFrom st) goalNode start of
              None \<Rightarrow> None
            | Some path \<Rightarrow>
                Some (Inr (\<lparr>Path = path, TotalCost = GScore (fst pq ! a),
                            ExpandedNodes = expandedNodes st + 1, Found = True\<rparr>, None)))
         else
           (case expand arrival ctx G goalNode h W (fst pq ! a) st2 of
              None \<Rightarrow> None
            | Some (st3, cancelled) \<Rightarrow>
                if cancelled then
                  Some (Inr (\<lparr>Path = [], TotalCost = 0, ExpandedNodes = 0, Found = False\<rparr>,
                             Some ContextDone))
                else Some (Inl st3)))"
proof -
  from assms(1) have "Len (items st, openSet st) \<noteq> 0"
    by (auto simp: heap_Pop_def split: if_splits)
  with assms show ?thesis by (simp add: Search_iteration_def Let_def split: option.split)
qed

text \<open>Relaxation touches none of the fields a loop adds to the search state.\<close>

lemma applyProposal_expandedNodes:
  "applyProposal st p = Some st' \<Longrightarrow> expandedNodes st' = expandedNodes st"
  by (erule applyProposal_cases) simp_all

lemma collect_expandedNodes:
  "collect c i st ps = Some (st', cancelled) \<Longrightarrow> expandedNodes st' = expandedNodes st"
  by (induction ps arbitrary: st i)
     (auto split: option.splits if_splits dest: applyProposal_expandedNodes)

lemma expand_expandedNodes:
  "expand arrival ctx G goalNode h W it st = Some (st', cancelled) \<Longrightarrow>
   expandedNodes st' = expandedNodes st"
  by (auto simp: expand_def Let_def split: option.splits dest: collect_expandedNodes)

lemma applyProposal_Stepper_fields:
  assumes "applyProposal s p = Some s'"
  shows "graph s' = graph s \<and> goal s' = goal s \<and> heuristic s' = heuristic s \<and>
         workers s' = workers s \<and> stepCount s' = stepCount s \<and> done' s' = done' s \<and>
         found s' = found s"
  using assms by (rule applyProposal_cases) simp_all

lemma collect_Stepper_fields:
  "collect c i s ps = Some (s', cancelled) \<Longrightarrow>
     graph s' = graph s \<and> goal s' = goal s \<and> heuristic s' = heuristic s \<and>
     workers s' = workers s \<and> stepCount s' = stepCount s \<and> done' s' = done' s \<and>
     found s' = found s"
proof (induction ps arbitrary: s i)
  case Nil
  then show ?case by simp
next
  case (Cons p ps)
  show ?case
  proof (cases "c = DoneAt i")
    case True
    with Cons.prems show ?thesis by simp
  next
    case False
    with Cons.prems obtain s1 where a: "applyProposal s p = Some s1"
      and c: "collect c (Suc i) s1 ps = Some (s', cancelled)" by (auto split: option.splits)
    from Cons.IH[OF c] applyProposal_Stepper_fields[OF a] show ?thesis by simp
  qed
qed

lemma expand_Stepper_fields:
  "expand arrival ctx G goalNode h W it s = Some (s', cancelled) \<Longrightarrow>
     graph s' = graph s \<and> goal s' = goal s \<and> heuristic s' = heuristic s \<and>
     workers s' = workers s \<and> stepCount s' = stepCount s \<and> done' s' = done' s \<and>
     found s' = found s"
  by (auto simp: expand_def Let_def split: option.splits dest: collect_Stepper_fields)

text \<open>
  An iteration that goes on to the next loop head has popped a node that was not closed
  and is not the goal, has closed it and has run the collecting loop to its end.
\<close>

lemma Search_iteration_Inl:
  assumes I: "state_inv G start st"
    and it: "Search_iteration arrival ctx G start goalNode h W st = Some (Inl st')"
  obtains pq a where "heap_Pop (items st, openSet st) = Some (pq, a)"
    "Node (fst pq ! a) \<notin> closedSet st" "Node (fst pq ! a) \<noteq> goalNode"
    "openSetMap st (Node (fst pq ! a)) \<noteq> None"
    "state_inv G start (st\<lparr>items := fst pq, openSet := snd pq,
                    openSetMap := (openSetMap st)(Node (fst pq ! a) := None),
                    closedSet := insert (Node (fst pq ! a)) (closedSet st),
                    expandedNodes := expandedNodes st + 1\<rparr>)"
    "start \<in> insert (Node (fst pq ! a)) (closedSet st)"
    "expand arrival ctx G goalNode h W (fst pq ! a)
       (st\<lparr>items := fst pq, openSet := snd pq,
            openSetMap := (openSetMap st)(Node (fst pq ! a) := None),
            closedSet := insert (Node (fst pq ! a)) (closedSet st),
            expandedNodes := expandedNodes st + 1\<rparr>) = Some (st', False)"
proof -
  have ne: "openSet st \<noteq> []" using it Search_iteration_empty[of st] by auto
  then obtain pq a where pop: "heap_Pop (items st, openSet st) = Some (pq, a)"
    using heap_Pop_Some[of "(items st, openSet st)"] by auto
  define v where "v = Node (fst pq ! a)"
  define st2 where "st2 = st\<lparr>items := fst pq, openSet := snd pq,
                    openSetMap := (openSetMap st)(v := None),
                    closedSet := insert v (closedSet st),
                    expandedNodes := expandedNodes st + 1\<rparr>"
  have P: "v \<notin> closedSet st" "state_inv G start st2" "start \<in> closedSet st2"
    "openSetMap st v \<noteq> None"
    using state_inv_pop[OF I pop v_def, of st2] by (simp_all add: st2_def)
  from it have "v \<noteq> goalNode \<and> expand arrival ctx G goalNode h W (fst pq ! a) st2 = Some (st', False)"
    using Search_iteration_pop[OF pop P(1)[unfolded v_def], of arrival ctx G start goalNode h W]
    by (auto simp: Let_def st2_def v_def split: if_splits option.splits)
  with pop P show ?thesis by (intro that[of pq a]) (simp_all add: v_def st2_def)
qed

lemma Search_iteration_inv:
  assumes I: "state_inv G start st" and c: "expandedNodes st = card (closedSet st)"
    and perm: "permutes arrival"
    and it: "Search_iteration arrival ctx G start goalNode h W st = Some (Inl st')"
  shows "state_inv G start st'" and "expandedNodes st' = card (closedSet st')"
proof -
  from I it obtain pq a where pop: "heap_Pop (items st, openSet st) = Some (pq, a)"
    and P: "Node (fst pq ! a) \<notin> closedSet st"
    and I2: "state_inv G start (st\<lparr>items := fst pq, openSet := snd pq,
                    openSetMap := (openSetMap st)(Node (fst pq ! a) := None),
                    closedSet := insert (Node (fst pq ! a)) (closedSet st),
                    expandedNodes := expandedNodes st + 1\<rparr>)"
    and S2: "start \<in> insert (Node (fst pq ! a)) (closedSet st)"
    and ex: "expand arrival ctx G goalNode h W (fst pq ! a)
       (st\<lparr>items := fst pq, openSet := snd pq,
            openSetMap := (openSetMap st)(Node (fst pq ! a) := None),
            closedSet := insert (Node (fst pq ! a)) (closedSet st),
            expandedNodes := expandedNodes st + 1\<rparr>) = Some (st', False)"
    by (rule Search_iteration_Inl)
  define v where "v = Node (fst pq ! a)"
  define st2 where "st2 = st\<lparr>items := fst pq, openSet := snd pq,
                    openSetMap := (openSetMap st)(v := None),
                    closedSet := insert v (closedSet st),
                    expandedNodes := expandedNodes st + 1\<rparr>"
  note I2 = I2[folded v_def, folded st2_def] and ex = ex[folded v_def, folded st2_def]
  have S2': "start \<in> closedSet st2" using S2 by (simp add: st2_def v_def)
  have cur: "Node (fst pq ! a) \<in> closedSet st2" by (simp add: st2_def v_def)
  have E: "state_inv G start st'" "closedSet st' = closedSet st2"
    using expand_inv[OF I2 S2' perm cur ex] by blast+
  show "state_inv G start st'" by (rule E(1))
  have fin: "finite (closedSet st)" using I links_ok_start(2) by (auto simp: state_inv_def)
  have "expandedNodes st' = expandedNodes st2" using ex by (rule expand_expandedNodes)
  also have "\<dots> = card (closedSet st2)" using c P fin by (simp add: st2_def v_def)
  finally show "expandedNodes st' = card (closedSet st')" using E(2) by simp
qed

lemma Search_iteration_covered:
  assumes I: "state_inv G start st"
    and cov: "covered G st" and g: "goalNode \<notin> closedSet st"
    and perm: "permutes arrival"
    and it: "Search_iteration arrival ctx G start goalNode h W st = Some (Inl st')"
  shows "covered G st'" and "goalNode \<notin> closedSet st'"
proof -
  from I it obtain pq a where pop: "heap_Pop (items st, openSet st) = Some (pq, a)"
    and P: "Node (fst pq ! a) \<notin> closedSet st" "Node (fst pq ! a) \<noteq> goalNode"
      "openSetMap st (Node (fst pq ! a)) \<noteq> None"
    and I2: "state_inv G start (st\<lparr>items := fst pq, openSet := snd pq,
                    openSetMap := (openSetMap st)(Node (fst pq ! a) := None),
                    closedSet := insert (Node (fst pq ! a)) (closedSet st),
                    expandedNodes := expandedNodes st + 1\<rparr>)"
    and S2: "start \<in> insert (Node (fst pq ! a)) (closedSet st)"
    and ex: "expand arrival ctx G goalNode h W (fst pq ! a)
       (st\<lparr>items := fst pq, openSet := snd pq,
            openSetMap := (openSetMap st)(Node (fst pq ! a) := None),
            closedSet := insert (Node (fst pq ! a)) (closedSet st),
            expandedNodes := expandedNodes st + 1\<rparr>) = Some (st', False)"
    by (rule Search_iteration_Inl)
  define v where "v = Node (fst pq ! a)"
  define st2 where "st2 = st\<lparr>items := fst pq, openSet := snd pq,
                    openSetMap := (openSetMap st)(v := None),
                    closedSet := insert v (closedSet st),
                    expandedNodes := expandedNodes st + 1\<rparr>"
  note I2 = I2[folded v_def, folded st2_def] and ex = ex[folded v_def, folded st2_def]
  have S2': "start \<in> closedSet st2" using S2 by (simp add: st2_def v_def)
  have cur: "Node (fst pq ! a) \<in> closedSet st2" by (simp add: st2_def v_def)
  have E: "closedSet st' = closedSet st2"
    "\<forall>x. openSetMap st2 x \<noteq> None \<longrightarrow> openSetMap st' x \<noteq> None"
    "\<forall>nb \<in> set (G v). ID nb \<in> closedSet st' \<or> openSetMap st' (ID nb) \<noteq> None"
    using expand_inv[OF I2 S2' perm cur ex] unfolding v_def by blast+
  have cl: "closedSet st' = insert v (closedSet st)" using E(1) by (simp add: st2_def)
  show "goalNode \<notin> closedSet st'" using g P(2) by (simp add: cl v_def)
  show "covered G st'"
    unfolding covered_def
  proof (intro ballI)
    fix u nb assume u: "u \<in> closedSet st'" and nb: "nb \<in> set (G u)"
    show "ID nb \<in> closedSet st' \<or> openSetMap st' (ID nb) \<noteq> None"
    proof (cases "u = v")
      case True
      with E(3) nb show ?thesis by blast
    next
      case False
      with u cl have "u \<in> closedSet st" by simp
      with cov nb have "ID nb \<in> closedSet st \<or> openSetMap st (ID nb) \<noteq> None"
        unfolding covered_def by blast
      then show ?thesis
      proof
        assume "ID nb \<in> closedSet st"
        then show ?thesis by (simp add: cl)
      next
        assume q: "openSetMap st (ID nb) \<noteq> None"
        show ?thesis
        proof (cases "ID nb = v")
          case True
          then show ?thesis by (simp add: cl)
        next
          case False
          with q have "openSetMap st2 (ID nb) \<noteq> None" by (simp add: st2_def)
          with E(2) show ?thesis by blast
        qed
      qed
    qed
  qed
qed

lemma Search_reach_inv:
  assumes "permutes arrival" and "Search_reach arrival ctx G start goalNode h W st"
  shows "state_inv G start st" and "expandedNodes st = card (closedSet st)"
    and "covered G st" and "goalNode \<notin> closedSet st"
proof -
  from assms(2) have "state_inv G start st \<and> expandedNodes st = card (closedSet st) \<and>
      covered G st \<and> goalNode \<notin> closedSet st"
  proof (induction rule: Search_reach.induct)
    case Search_reach_init
    have "state_inv G start
        (SearchState.extend (initialState start goalNode h) (SearchLoop.fields 0))"
      by (rule state_inv_initial) (simp_all add: initialState_eq SearchState.defs SearchLoop.defs)
    then show ?case
      by (simp add: covered_def) (simp add: initialState_eq SearchState.defs SearchLoop.defs)
  next
    case (Search_reach_step st st')
    from Search_reach_step.IH have a: "state_inv G start st"
      "expandedNodes st = card (closedSet st)" "covered G st" "goalNode \<notin> closedSet st"
      by blast+
    from Search_iteration_inv[OF a(1,2) assms(1) Search_reach_step.hyps(2)]
      Search_iteration_covered[OF a(1,3,4) assms(1) Search_reach_step.hyps(2)]
    show ?case by blast
  qed
  then show "state_inv G start st" and "expandedNodes st = card (closedSet st)"
    and "covered G st" and "goalNode \<notin> closedSet st" by blast+
qed

lemma state_inv_same_core:
  "same_core st s \<Longrightarrow> state_inv G start st = state_inv G start s"
  by (simp add: state_inv_def frontier_ok_def links_ok_def started_def same_core_def)

text \<open>The snapshot literals of \<open>Step\<close>, and \<open>Step\<close> unfolded along its paths.\<close>

lemma Step_done:
  "done' s \<Longrightarrow> Step arrival ctx s = Some (s, snapshot s 0 True (found s) [], None)"
  by (subst Step.simps) (simp add: snapshot_def copyBoolMap_def copyCameFrom_def)

lemma Step_empty:
  "\<not> done' s \<Longrightarrow> openSet s = [] \<Longrightarrow>
   Step arrival ctx s =
     Some (s\<lparr>done' := True\<rparr>, snapshot (s\<lparr>done' := True\<rparr>) 0 True False [], None)"
  by (subst Step.simps) (simp add: Let_def snapshot_def copyBoolMap_def copyCameFrom_def Len_def)

lemma Step_stale:
  assumes "\<not> done' s" and "heap_Pop (items s, openSet s) = Some (pq, a)"
    and "Node (fst pq ! a) \<in> closedSet s"
  shows "Step arrival ctx s = Step arrival ctx (popped (s\<lparr>stepCount := stepCount s + 1\<rparr>) pq a)"
proof -
  from assms(2) have "Len (items s, openSet s) \<noteq> 0"
    by (auto simp: heap_Pop_def split: if_splits)
  with assms show ?thesis by (subst Step.simps) (simp add: Let_def popped_def)
qed

lemma Step_fresh:
  assumes "\<not> done' s" and "heap_Pop (items s, openSet s) = Some (pq, a)"
    and "Node (fst pq ! a) \<notin> closedSet s"
  shows "Step arrival ctx s =
     (let s3 = (popped (s\<lparr>stepCount := stepCount s + 1\<rparr>) pq a)
                 \<lparr>closedSet := insert (Node (fst pq ! a)) (closedSet s)\<rparr>
      in if Node (fst pq ! a) = goal s then
           (case inferStartFromCameFrom (cameFrom s) (goal s) of
              None \<Rightarrow> None
            | Some start \<Rightarrow>
                (case reconstructPath (cameFrom s) (goal s) start of
                   None \<Rightarrow> None
                 | Some path \<Rightarrow>
                     Some (s3\<lparr>done' := True, found := True\<rparr>,
                           snapshot (s3\<lparr>done' := True, found := True\<rparr>) (goal s) True True path,
                           None)))
         else
           (case expand arrival ctx (graph s) (goal s) (heuristic s) (workers s) (fst pq ! a) s3 of
              None \<Rightarrow> None
            | Some (s4, cancelled) \<Rightarrow>
                if cancelled then
                  Some (s4\<lparr>done' := True\<rparr>, interrupted (s4\<lparr>done' := True\<rparr>), Some ContextDone)
                else Some (s4, snapshot s4 (Node (fst pq ! a)) False False [], None)))"
proof -
  from assms(2) have "Len (items s, openSet s) \<noteq> 0"
    by (auto simp: heap_Pop_def split: if_splits)
  with assms show ?thesis
    by (subst Step.simps)
       (simp add: Let_def popped_def snapshot_def interrupted_def copyBoolMap_def
          copyCameFrom_def split: option.split)
qed

section \<open>Trails and reconstructed paths\<close>

lemma trail_ends: "trail came start v p \<Longrightarrow> p \<noteq> [] \<and> last p = v \<and> hd p = start"
  by (induction rule: trail.induct) (auto simp: hd_append)

lemma trail_reconstructPath_loop:
  "trail came start v p \<Longrightarrow> reconstructPath_loop came v start acc = Some (acc @ tl (rev p))"
proof (induction arbitrary: acc rule: trail.induct)
  case trail_start
  show ?case by (subst reconstructPath_loop.simps) simp
next
  case (trail_link v u p)
  from trail_ends[OF trail_link.hyps(3)] have "rev p = u # tl (rev p)"
    by (cases p rule: rev_cases) auto
  then have "(acc @ [u]) @ tl (rev p) = acc @ rev p" by (metis append.assoc append_Cons append_Nil)
  with trail_link.IH[of "acc @ [u]"] trail_link.hyps(1,2) show ?case
    by (subst reconstructPath_loop.simps) simp
qed

lemma trail_reconstructPath: "trail came start v p \<Longrightarrow> reconstructPath came v start = Some p"
proof -
  assume t: "trail came start v p"
  from trail_ends[OF t] obtain q where p: "p = q @ [v]" by (cases p rule: rev_cases) auto
  have "reconstructPath_loop came v start [v] = Some ([v] @ tl (rev p))"
    using t by (rule trail_reconstructPath_loop)
  then have "reconstructPath_loop came v start [v] = Some (v # rev q)" by (simp add: p)
  then show ?thesis by (simp add: reconstructPath_def p)
qed

lemma trail_inferStart:
  "trail came start v p \<Longrightarrow> came start = None \<Longrightarrow> inferStartFromCameFrom came v = Some start"
proof (induction rule: trail.induct)
  case trail_start
  then show ?case by (subst inferStartFromCameFrom.simps) simp
next
  case (trail_link v u p)
  then show ?case by (subst inferStartFromCameFrom.simps) simp
qed

lemma Step_cases:
  assumes I: "state_inv G start s" and G: "graph s = G"
  obtains
    (finished) "done' s" "Step arrival ctx s = Some (s, snapshot s 0 True (found s) [], None)"
  | (exhausted) "\<not> done' s" "openSet s = []"
      "Step arrival ctx s =
         Some (s\<lparr>done' := True\<rparr>, snapshot (s\<lparr>done' := True\<rparr>) 0 True False [], None)"
  | (goal_found) pq a s3 path where "\<not> done' s"
      "heap_Pop (items s, openSet s) = Some (pq, a)" "Node (fst pq ! a) = goal s"
      "goal s \<notin> closedSet s"
      "s3 = (popped (s\<lparr>stepCount := stepCount s + 1\<rparr>) pq a)
               \<lparr>closedSet := insert (goal s) (closedSet s), done' := True, found := True\<rparr>"
      "state_inv G start s3"
      "trail (cameFrom s) start (goal s) path"
      "Step arrival ctx s = Some (s3, snapshot s3 (goal s) True True path, None)"
  | (expanded) pq a s3 where "\<not> done' s"
      "heap_Pop (items s, openSet s) = Some (pq, a)" "Node (fst pq ! a) \<noteq> goal s"
      "Node (fst pq ! a) \<notin> closedSet s"
      "s3 = (popped (s\<lparr>stepCount := stepCount s + 1\<rparr>) pq a)
               \<lparr>closedSet := insert (Node (fst pq ! a)) (closedSet s)\<rparr>"
      "state_inv G start s3" "start \<in> closedSet s3"
      "Step arrival ctx s =
         (case expand arrival ctx G (goal s) (heuristic s) (workers s) (fst pq ! a) s3 of
            None \<Rightarrow> None
          | Some (s4, cancelled) \<Rightarrow>
              if cancelled then
                Some (s4\<lparr>done' := True\<rparr>, interrupted (s4\<lparr>done' := True\<rparr>), Some ContextDone)
              else Some (s4, snapshot s4 (Node (fst pq ! a)) False False [], None))"
proof (cases "done' s")
  case True
  then show ?thesis using Step_done[OF True] by (rule finished)
next
  case nd: False
  show ?thesis
  proof (cases "openSet s = []")
    case True
    with nd show ?thesis using Step_empty[OF nd True] by (rule exhausted)
  next
    case False
    then obtain pq a where pop: "heap_Pop (items s, openSet s) = Some (pq, a)"
      using heap_Pop_Some[of "(items s, openSet s)"] by auto
    define v where "v = Node (fst pq ! a)"
    define s3 where "s3 = (popped (s\<lparr>stepCount := stepCount s + 1\<rparr>) pq a)
               \<lparr>closedSet := insert v (closedSet s)\<rparr>"
    have P: "v \<notin> closedSet s" "state_inv G start s3" "start \<in> closedSet s3"
      using state_inv_pop[OF I pop v_def, of s3] by (simp_all add: s3_def popped_def v_def)
    note fresh = Step_fresh[OF nd pop P(1)[unfolded v_def], of arrival ctx]
    show ?thesis
    proof (cases "v = goal s")
      case True
      define s4 where "s4 = s3\<lparr>done' := True, found := True\<rparr>"
      have I4: "state_inv G start s4"
        using P(2) state_inv_same_core[of s4 s3] by (simp add: s4_def same_core_def)
      from I have L: "links_ok G start s" by (simp add: state_inv_def)
      from P(2) have L3: "links_ok G start s3" by (simp add: state_inv_def)
      have "goal s \<in> closedSet s3" using True by (simp add: s3_def)
      from links_ok_trail[OF L3 this] obtain path where
        t: "trail (cameFrom s) start (goal s) path" by (auto simp: s3_def popped_def)
      have cs: "cameFrom s start = None" using links_ok_start(1)[OF L] .
      have "Step arrival ctx s = Some (s4, snapshot s4 (goal s) True True path, None)"
        using fresh True trail_inferStart[OF t cs] trail_reconstructPath[OF t]
        by (simp add: Let_def v_def s3_def s4_def)
      moreover have "s4 = (popped (s\<lparr>stepCount := stepCount s + 1\<rparr>) pq a)
               \<lparr>closedSet := insert (goal s) (closedSet s), done' := True, found := True\<rparr>"
        using True by (simp add: s4_def s3_def)
      ultimately show ?thesis
        using nd pop True P(1) I4 t by (intro goal_found[of pq a s4 path]) (simp_all add: v_def)
    next
      case False
      have "Step arrival ctx s =
         (case expand arrival ctx G (goal s) (heuristic s) (workers s) (fst pq ! a) s3 of
            None \<Rightarrow> None
          | Some (s4, cancelled) \<Rightarrow>
              if cancelled then
                Some (s4\<lparr>done' := True\<rparr>, interrupted (s4\<lparr>done' := True\<rparr>), Some ContextDone)
              else Some (s4, snapshot s4 (Node (fst pq ! a)) False False [], None))"
        using fresh False G by (simp add: Let_def v_def s3_def)
      then show ?thesis
        using nd pop False P(1,2,3) by (intro expanded[of pq a s3]) (simp_all add: v_def s3_def)
    qed
  qed
qed

text \<open>
  What a \<open>Step\<close> call that expands a node returns, given what the collecting loop
  returns.
\<close>

lemma Step_expanded:
  assumes "Step arrival ctx s =
         (case expand arrival ctx G (goal s) (heuristic s) (workers s) it s3 of
            None \<Rightarrow> None
          | Some (s4, cancelled) \<Rightarrow>
              if cancelled then
                Some (s4\<lparr>done' := True\<rparr>, interrupted (s4\<lparr>done' := True\<rparr>), Some ContextDone)
              else Some (s4, snapshot s4 v False False [], None))"
    and "Step arrival ctx s = Some (s', snap, err)"
  obtains (went_on) "expand arrival ctx G (goal s) (heuristic s) (workers s) it s3 = Some (s', False)"
      "snap = snapshot s' v False False []" "err = None"
  | (halted) s4 where
      "expand arrival ctx G (goal s) (heuristic s) (workers s) it s3 = Some (s4, True)"
      "s' = s4\<lparr>done' := True\<rparr>" "snap = interrupted s'" "err = Some ContextDone"
proof (cases "expand arrival ctx G (goal s) (heuristic s) (workers s) it s3")
  case None
  with assms show ?thesis by simp
next
  case (Some r)
  obtain s4 c where r: "r = (s4, c)" by (cases r)
  show ?thesis
  proof (cases c)
    case True
    with assms Some r show ?thesis by (intro halted[of s4]) simp_all
  next
    case False
    with assms Some r show ?thesis by (intro went_on) simp_all
  qed
qed

lemma Step_inv:
  assumes perm: "permutes arrival" and I: "stepper_inv G start goalNode h W s"
    and st: "Step arrival ctx s = Some (s', snap, err)"
  shows "stepper_inv G start goalNode h W s'"
proof -
  from I have SI: "state_inv G start s" and G: "graph s = G"
    and c: "goal s = goalNode" "heuristic s = h" "workers s = W" "found s \<longrightarrow> done' s"
    by (simp_all add: stepper_inv_def)
  from SI G show ?thesis
  proof (cases rule: Step_cases[where arrival = arrival and ctx = ctx])
    case finished
    with st I show ?thesis by simp
  next
    case exhausted
    with st have s': "s' = s\<lparr>done' := True\<rparr>" by simp
    have "state_inv G start s'"
      using SI state_inv_same_core[of s' s] by (simp add: s' same_core_def)
    then show ?thesis using G c by (simp add: stepper_inv_def s')
  next
    case (goal_found pq a s3 path)
    with st have "s' = s3" by simp
    then show ?thesis using goal_found(5,6) G c by (simp add: stepper_inv_def popped_def)
  next
    case (expanded pq a s3)
    have cur: "Node (fst pq ! a) \<in> closedSet s3" by (simp add: expanded(5))
    have f3: "graph s3 = G" "goal s3 = goalNode" "heuristic s3 = h" "workers s3 = W"
      "\<not> found s3"
      using G c expanded(1) by (auto simp: expanded(5) popped_def)
    from expanded(8) st show ?thesis
    proof (cases rule: Step_expanded)
      case went_on
      from expand_inv[OF expanded(6,7) perm cur went_on(1)]
      have "state_inv G start s'" by simp
      moreover from expand_Stepper_fields[OF went_on(1)]
      have "graph s' = graph s3 \<and> goal s' = goal s3 \<and> heuristic s' = heuristic s3 \<and>
            workers s' = workers s3 \<and> done' s' = done' s3 \<and> found s' = found s3" by simp
      ultimately show ?thesis using f3 by (simp add: stepper_inv_def)
    next
      case (halted s4)
      from expand_inv[OF expanded(6,7) perm cur halted(1)]
      have "state_inv G start s4" by simp
      then have "state_inv G start s'"
        using state_inv_same_core[of s' s4] by (simp add: halted(2) same_core_def)
      moreover from expand_Stepper_fields[OF halted(1)]
      have "graph s4 = graph s3 \<and> goal s4 = goal s3 \<and> heuristic s4 = heuristic s3 \<and>
            workers s4 = workers s3 \<and> found s4 = found s3" by simp
      ultimately show ?thesis using f3 by (simp add: stepper_inv_def halted(2))
    qed
  qed
qed

lemma NewStepper_inv: "stepper_inv G start goalNode h W (NewStepper G start goalNode h W)"
proof -
  have "state_inv G start (NewStepper G start goalNode h W)"
    by (rule state_inv_initial)
       (simp_all add: NewStepper_def heap_Init_empty heap_Push_first)
  then show ?thesis
    by (simp add: stepper_inv_def) (simp add: NewStepper_def Let_def)
qed

lemma Stepper_reach_inv:
  assumes "permutes arrival" and "Stepper_reach arrival ctx G start goalNode h W s"
  shows "stepper_inv G start goalNode h W s"
  using assms(2)
proof (induction rule: Stepper_reach.induct)
  case Stepper_reach_init
  show ?case by (rule NewStepper_inv)
next
  case (Stepper_reach_step s s' snap err)
  then show ?case using Step_inv[OF assms(1)] by blast
qed

lemma state_inv_fresh:
  assumes "state_inv G start st" and "heap_Pop (items st, openSet st) = Some (pq, a)"
  shows "Node (fst pq ! a) \<notin> closedSet st"
  using state_inv_pop(1)[OF assms refl,
      of "st\<lparr>items := fst pq, openSet := snd pq,
            openSetMap := (openSetMap st)(Node (fst pq ! a) := None),
            closedSet := insert (Node (fst pq ! a)) (closedSet st)\<rparr>"]
  by simp

section \<open>What a proposal, an iteration and a step change\<close>

lemma applyProposal_closedSet: "applyProposal st p = Some st' \<Longrightarrow> closedSet st' = closedSet st"
  by (erule applyProposal_cases) simp_all

lemma collect_closedSet:
  "collect c i st ps = Some (st', cancelled) \<Longrightarrow> closedSet st' = closedSet st"
  by (induction ps arbitrary: st i)
     (auto split: option.splits if_splits dest: applyProposal_closedSet)

lemma expand_closedSet:
  "expand arrival ctx G goalNode h W it st = Some (st', cancelled) \<Longrightarrow>
   closedSet st' = closedSet st"
  by (auto simp: expand_def Let_def split: option.splits dest: collect_closedSet)

lemma applyProposal_gscore:
  assumes "applyProposal st p = Some st'"
  shows "pathCostFromStart st' n = pathCostFromStart st n \<or>
         (n = ToNode p \<and> ToNode p \<notin> closedSet st \<and>
          pathCostFromStart st' n = Some (propGScore p) \<and>
          (\<forall>old. pathCostFromStart st n = Some old \<longrightarrow> propGScore p < old))"
  using assms by (rule applyProposal_cases) (auto simp: improves_def)

lemma nonincreasing_refl: "nonincreasing g g"
  by (simp add: nonincreasing_def)

lemma nonincreasing_trans: "nonincreasing g g' \<Longrightarrow> nonincreasing g' g'' \<Longrightarrow> nonincreasing g g''"
  unfolding nonincreasing_def
proof (intro allI impI)
  fix n old
  assume 1: "\<forall>n old. g n = Some old \<longrightarrow> (\<exists>new. g' n = Some new \<and> (new = old \<or> new < old))"
    and 2: "\<forall>n old. g' n = Some old \<longrightarrow> (\<exists>new. g'' n = Some new \<and> (new = old \<or> new < old))"
    and o: "g n = Some old"
  from 1 o obtain mid where m: "g' n = Some mid" "mid = old \<or> mid < old" by blast
  from 2 m(1) obtain new where n: "g'' n = Some new" "new = mid \<or> new < mid" by blast
  from m(2) n(2) have "new = old \<or> new < old" using less_float64_trans by blast
  with n(1) show "\<exists>new. g'' n = Some new \<and> (new = old \<or> new < old)" by blast
qed

lemma applyProposal_nonincreasing:
  assumes "applyProposal st p = Some st'"
  shows "nonincreasing (pathCostFromStart st) (pathCostFromStart st')"
  unfolding nonincreasing_def
proof (intro allI impI)
  fix n old assume o: "pathCostFromStart st n = Some old"
  from applyProposal_gscore[OF assms, of n] o
  show "\<exists>new. pathCostFromStart st' n = Some new \<and> (new = old \<or> new < old)" by auto
qed

lemma collect_nonincreasing:
  "collect c i st ps = Some (st', cancelled) \<Longrightarrow>
   nonincreasing (pathCostFromStart st) (pathCostFromStart st')"
proof (induction ps arbitrary: st i)
  case Nil
  then show ?case by (simp add: nonincreasing_refl)
next
  case (Cons p ps)
  show ?case
  proof (cases "c = DoneAt i")
    case True
    with Cons.prems show ?thesis by (simp add: nonincreasing_refl)
  next
    case False
    with Cons.prems obtain st1 where a: "applyProposal st p = Some st1"
      and c: "collect c (Suc i) st1 ps = Some (st', cancelled)" by (auto split: option.splits)
    from applyProposal_nonincreasing[OF a] Cons.IH[OF c] show ?thesis
      by (rule nonincreasing_trans)
  qed
qed

lemma expand_nonincreasing:
  "expand arrival ctx G goalNode h W it st = Some (st', cancelled) \<Longrightarrow>
   nonincreasing (pathCostFromStart st) (pathCostFromStart st')"
  by (auto simp: expand_def Let_def nonincreasing_refl split: option.splits
      dest: collect_nonincreasing)

lemma Search_iteration_changes:
  assumes "Search_iteration arrival ctx G start goalNode h W st = Some (Inl st')"
  shows "closedSet st \<subseteq> closedSet st'"
    and "nonincreasing (pathCostFromStart st) (pathCostFromStart st')"
proof -
  have ne: "openSet st \<noteq> []" using assms Search_iteration_empty[of st] by auto
  then obtain pq a where pop: "heap_Pop (items st, openSet st) = Some (pq, a)"
    using heap_Pop_Some[of "(items st, openSet st)"] by auto
  have len: "Len (items st, openSet st) \<noteq> 0" using ne by (simp add: Len_def)
  have "closedSet st \<subseteq> closedSet st' \<and>
        nonincreasing (pathCostFromStart st) (pathCostFromStart st')"
  proof (cases "Node (fst pq ! a) \<in> closedSet st")
    case True
    with assms pop len have "st' = st\<lparr>items := fst pq, openSet := snd pq,
        openSetMap := (openSetMap st)(Node (fst pq ! a) := None)\<rparr>"
      by (simp add: Search_iteration_def Let_def)
    then show ?thesis by (simp add: nonincreasing_refl)
  next
    case False
    define st2 where "st2 = st\<lparr>items := fst pq, openSet := snd pq,
                    openSetMap := (openSetMap st)(Node (fst pq ! a) := None),
                    closedSet := insert (Node (fst pq ! a)) (closedSet st),
                    expandedNodes := expandedNodes st + 1\<rparr>"
    from assms have ex: "expand arrival ctx G goalNode h W (fst pq ! a) st2 = Some (st', False)"
      using Search_iteration_pop[OF pop False, of arrival ctx G start goalNode h W]
      by (auto simp: Let_def st2_def split: if_splits option.splits)
    from expand_closedSet[OF ex] expand_nonincreasing[OF ex] show ?thesis
      by (auto simp: st2_def)
  qed
  then show "closedSet st \<subseteq> closedSet st'"
    and "nonincreasing (pathCostFromStart st) (pathCostFromStart st')" by blast+
qed

lemma Step_changes:
  "Step arrival ctx s = Some (s', snap, err) \<Longrightarrow>
   closedSet s \<subseteq> closedSet s' \<and> nonincreasing (pathCostFromStart s) (pathCostFromStart s')"
proof (induction "length (openSet s)" arbitrary: s rule: less_induct)
  case less
  show ?case
  proof (cases "done' s")
    case True
    with less.prems Step_done[OF True, of arrival ctx] show ?thesis by (simp add: nonincreasing_refl)
  next
    case nd: False
    show ?thesis
    proof (cases "openSet s = []")
      case True
      with less.prems Step_empty[OF nd True, of arrival ctx] show ?thesis
        by (auto simp: nonincreasing_refl)
    next
      case False
      then obtain pq a where pop: "heap_Pop (items s, openSet s) = Some (pq, a)"
        using heap_Pop_Some[of "(items s, openSet s)"] by auto
      show ?thesis
      proof (cases "Node (fst pq ! a) \<in> closedSet s")
        case True
        define s2 where "s2 = popped (s\<lparr>stepCount := stepCount s + 1\<rparr>) pq a"
        have "Step arrival ctx s2 = Some (s', snap, err)"
          using Step_stale[OF nd pop True, of arrival ctx] less.prems by (simp add: s2_def)
        moreover have "length (openSet s2) < length (openSet s)"
          using heap_Pop_length[OF pop] by (simp add: s2_def popped_def)
        ultimately have "closedSet s2 \<subseteq> closedSet s' \<and>
            nonincreasing (pathCostFromStart s2) (pathCostFromStart s')"
          using less.hyps by blast
        then show ?thesis by (simp add: s2_def popped_def)
      next
        case fresh: False
        define s3 where "s3 = (popped (s\<lparr>stepCount := stepCount s + 1\<rparr>) pq a)
                 \<lparr>closedSet := insert (Node (fst pq ! a)) (closedSet s)\<rparr>"
        note unfold = Step_fresh[OF nd pop fresh, of arrival ctx, folded s3_def]
        show ?thesis
        proof (cases "Node (fst pq ! a) = goal s")
          case True
          with less.prems unfold have "s' = s3\<lparr>done' := True, found := True\<rparr>"
            by (auto simp: Let_def split: option.splits)
          then show ?thesis by (auto simp: s3_def popped_def nonincreasing_refl)
        next
          case False
          with unfold have "Step arrival ctx s =
              (case expand arrival ctx (graph s) (goal s) (heuristic s) (workers s) (fst pq ! a) s3 of
                 None \<Rightarrow> None
               | Some (s4, cancelled) \<Rightarrow>
                   if cancelled then
                     Some (s4\<lparr>done' := True\<rparr>, interrupted (s4\<lparr>done' := True\<rparr>), Some ContextDone)
                   else Some (s4, snapshot s4 (Node (fst pq ! a)) False False [], None))"
            by (simp add: Let_def)
          from this less.prems show ?thesis
          proof (cases rule: Step_expanded)
            case went_on
            from expand_closedSet[OF went_on(1)] expand_nonincreasing[OF went_on(1)]
            show ?thesis by (auto simp: s3_def popped_def)
          next
            case (halted s4)
            from expand_closedSet[OF halted(1)] expand_nonincreasing[OF halted(1)]
            show ?thesis by (auto simp: s3_def popped_def halted(2))
          qed
        qed
      qed
    qed
  qed
qed

lemma keeps_set: "keeps pq pq' \<Longrightarrow> set (snd pq') = set (snd pq)"
  unfolding keeps_def by (metis mset_eq_setD)

lemma applyProposal_pushed:
  assumes ap: "applyProposal st p = Some st'"
    and new: "a \<in> set (openSet st')" "a \<notin> set (openSet st)"
  shows "a = length (items st) \<and> Node (items st' ! a) = ToNode p \<and> ToNode p \<notin> closedSet st'"
  using ap
proof (cases rule: applyProposal_cases)
  case same
  with new show ?thesis by simp
next
  case (push pq)
  define it where "it = \<lparr>Node = ToNode p, GScore = propGScore p,
                 FCost = propFCost p, IndexInQueue = 0\<rparr>"
  have k: "keeps (items st @ [it], openSet st @ [length (items st)]) pq"
    using heap_Push_keeps[of "(items st @ [it], openSet st)" "length (items st)"]
    by (simp add: push(4) it_def)
  then have "set (snd pq) = set (openSet st @ [length (items st)])"
    using keeps_set by fastforce
  with new push(5) have a: "a = length (items st)" by simp
  have "Node (fst pq ! length (items st)) = Node ((items st @ [it]) ! length (items st))"
    using k payload_fields(1)[of "fst pq" "items st @ [it]" "length (items st)"]
    by (simp add: keeps_def)
  then have "Node (items st' ! a) = ToNode p" by (simp add: a push(5) it_def)
  then show ?thesis using push(1) a by (simp add: push(5))
next
  case (decrease b m pq)
  have "keeps (m, openSet st) pq" using heap_Fix_keeps[OF decrease(6)] .
  then have "set (snd pq) = set (openSet st)" using keeps_set by fastforce
  with new decrease(7) show ?thesis by simp
next
  case (keep b)
  with new show ?thesis by simp
qed


section \<open>The orchestrator loop and its final state\<close>

lemma orchestrate_step:
  "Search_iteration arrival ctx G start goalNode h W st = Some (Inl st') \<Longrightarrow>
   orchestrate arrival ctx G start goalNode h W st = orchestrate arrival ctx G start goalNode h W st'"
  by (subst orchestrate.simps) simp

lemma orchestrate_return:
  "Search_iteration arrival ctx G start goalNode h W st = Some (Inr r) \<Longrightarrow>
   orchestrate arrival ctx G start goalNode h W st = Some r"
  by (subst orchestrate.simps) simp

lemma orchestrate_stuck:
  "Search_iteration arrival ctx G start goalNode h W st = None \<Longrightarrow>
   orchestrate arrival ctx G start goalNode h W st = None"
  by (subst orchestrate.simps) simp

lemma Search_reach_orchestrate:
  "Search_reach arrival ctx G start goalNode h W st \<Longrightarrow>
   Search arrival ctx G start goalNode h W = orchestrate arrival ctx G start goalNode h W st"
  by (induction rule: Search_reach.induct) (simp_all add: Search_def orchestrate_step)

lemma orchestrate_final:
  assumes ret: "orchestrate arrival ctx G start goalNode h W st = Some r"
    and reach: "Search_reach arrival ctx G start goalNode h W st"
  shows "\<exists>st'. Search_reach arrival ctx G start goalNode h W st' \<and>
           Search_iteration arrival ctx G start goalNode h W st' = Some (Inr r)"
proof -
  have "Search_reach arrival ctx G start goalNode h W st \<longrightarrow>
        (\<exists>st'. Search_reach arrival ctx G start goalNode h W st' \<and>
           Search_iteration arrival ctx G start goalNode h W st' = Some (Inr r))"
  proof (rule orchestrate.raw_induct[where P = "\<lambda>arrival ctx G start goalNode h W st r.
        Search_reach arrival ctx G start goalNode h W st \<longrightarrow>
        (\<exists>st'. Search_reach arrival ctx G start goalNode h W st' \<and>
           Search_iteration arrival ctx G start goalNode h W st' = Some (Inr r))", OF _ ret],
      goal_cases)
    case (1 orch arrival ctx G start goalNode h W st r)
    show ?case
    proof
      assume rs: "Search_reach arrival ctx G start goalNode h W st"
      show "\<exists>st'. Search_reach arrival ctx G start goalNode h W st' \<and>
           Search_iteration arrival ctx G start goalNode h W st' = Some (Inr r)"
      proof (cases "Search_iteration arrival ctx G start goalNode h W st")
        case None
        with 1(2) show ?thesis by simp
      next
        case (Some x)
        show ?thesis
        proof (cases x)
          case (Inl st')
          with Some 1(2) have "orch arrival ctx G start goalNode h W st' = Some r" by simp
          moreover have "Search_reach arrival ctx G start goalNode h W st'"
            using rs Some Inl by (auto intro: Search_reach_step)
          ultimately show ?thesis using 1(1) by blast
        next
          case (Inr res)
          with Some 1(2) have "res = r" by simp
          with Some Inr rs show ?thesis by blast
        qed
      qed
    qed
  qed
  with reach show ?thesis by blast
qed

lemma Search_final:
  assumes "Search arrival ctx G start goalNode h W = Some r"
  shows "\<exists>st. Search_reach arrival ctx G start goalNode h W st \<and>
           Search_iteration arrival ctx G start goalNode h W st = Some (Inr r)"
  using orchestrate_final[OF assms[unfolded Search_def] Search_reach_init] .

text \<open>What an iteration returns, in a state that satisfies the invariant.\<close>

lemma Search_iteration_returns:
  assumes I: "state_inv G start st"
    and r: "Search_iteration arrival ctx G start goalNode h W st = Some (Inr (res, err))"
  obtains (not_found) "openSet st = []" "err = Some NoPathFound"
      "res = \<lparr>Path = [], TotalCost = 0, ExpandedNodes = expandedNodes st, Found = False\<rparr>"
  | (found) pq a path where "heap_Pop (items st, openSet st) = Some (pq, a)"
      "Node (fst pq ! a) = goalNode" "goalNode \<notin> closedSet st" "err = None"
      "trail (cameFrom st) start goalNode path"
      "res = \<lparr>Path = path, TotalCost = GScore (fst pq ! a),
               ExpandedNodes = expandedNodes st + 1, Found = True\<rparr>"
  | (interrupted) "openSet st \<noteq> []" "err = Some ContextDone"
      "res = \<lparr>Path = [], TotalCost = 0, ExpandedNodes = 0, Found = False\<rparr>"
proof (cases "openSet st = []")
  case True
  with r Search_iteration_empty[OF True, of arrival ctx G start goalNode h W] show ?thesis
    by (intro not_found) auto
next
  case False
  then obtain pq a where pop: "heap_Pop (items st, openSet st) = Some (pq, a)"
    using heap_Pop_Some[of "(items st, openSet st)"] by auto
  define v where "v = Node (fst pq ! a)"
  define st2 where "st2 = st\<lparr>items := fst pq, openSet := snd pq,
                    openSetMap := (openSetMap st)(v := None),
                    closedSet := insert v (closedSet st)\<rparr>"
  have P: "v \<notin> closedSet st" "state_inv G start st2" "start \<in> closedSet st2"
    using state_inv_pop[OF I pop v_def, of st2] by (simp_all add: st2_def)
  note unfold = Search_iteration_pop[OF pop P(1)[unfolded v_def], of arrival ctx G start goalNode h W]
  show ?thesis
  proof (cases "v = goalNode")
    case vg: True
    from P(2) have "links_ok G start st2" by (simp add: state_inv_def)
    from links_ok_trail[OF this, of goalNode] obtain path where
      t: "trail (cameFrom st) start goalNode path" by (auto simp: st2_def vg)
    have "res = \<lparr>Path = path, TotalCost = GScore (fst pq ! a),
                 ExpandedNodes = expandedNodes st + 1, Found = True\<rparr>" and "err = None"
      using r unfold vg trail_reconstructPath[OF t] by (simp_all add: Let_def v_def)
    with pop vg P(1) t show ?thesis by (intro found[of pq a path]) (simp_all add: v_def)
  next
    case ng: False
    with r unfold have "err = Some ContextDone \<and>
        res = \<lparr>Path = [], TotalCost = 0, ExpandedNodes = 0, Found = False\<rparr>"
      by (auto simp: Let_def v_def split: option.splits if_splits)
    with False show ?thesis by (intro interrupted) simp_all
  qed
qed

section \<open>A \<open>Step\<close> call mirrors an iteration of the orchestrator loop\<close>

lemma same_core_pop:
  "same_core sl s \<Longrightarrow> heap_Pop (items sl, openSet sl) = heap_Pop (items s, openSet s)"
  by (simp add: same_core_def)

lemma mirror_step:
  fixes sl :: "('n::zero) SearchLoop" and s :: "'n Stepper"
  assumes perm: "permutes arrival" and I: "stepper_inv G start goalNode h W s"
    and nd: "\<not> done' s" and core: "same_core sl s"
    and cnt: "expandedNodes sl = card (closedSet sl)"
  shows "(Search_iteration arrival ctx G start goalNode h W sl = None \<and>
          Step arrival ctx s = None) \<or>
         (\<exists>sl' s' snap. Search_iteration arrival ctx G start goalNode h W sl = Some (Inl sl') \<and>
            Step arrival ctx s = Some (s', snap, None) \<and> \<not> Done snap \<and> same_core sl' s' \<and>
            \<not> done' s') \<or>
         (\<exists>r s' snap err. Search_iteration arrival ctx G start goalNode h W sl = Some (Inr r) \<and>
            Step arrival ctx s = Some (s', snap, err) \<and> Done snap \<and> agrees r (snap, err))"
proof -
  from I have SI: "state_inv G start s" and G: "graph s = G"
    and c: "goal s = goalNode" "heuristic s = h" "workers s = W"
    by (simp_all add: stepper_inv_def)
  have SL: "state_inv G start sl"
    using SI state_inv_same_core[OF core] by simp
  have fin: "finite (closedSet sl)" using SL links_ok_start(2) by (auto simp: state_inv_def)
  have cs: "closedSet sl = closedSet s" "cameFrom sl = cameFrom s" "openSet sl = openSet s"
    using core by (simp_all add: same_core_def)
  from SI G show ?thesis
  proof (cases rule: Step_cases[where arrival = arrival and ctx = ctx])
    case finished
    with nd show ?thesis by simp
  next
    case exhausted
    have "Search_iteration arrival ctx G start goalNode h W sl =
        Some (Inr (\<lparr>Path = [], TotalCost = 0, ExpandedNodes = expandedNodes sl, Found = False\<rparr>,
                   Some NoPathFound))"
      using exhausted(2) cs(3) by (intro Search_iteration_empty) simp
    moreover have "agrees (\<lparr>Path = [], TotalCost = 0, ExpandedNodes = expandedNodes sl,
                            Found = False\<rparr>, Some NoPathFound)
        (snapshot (s\<lparr>done' := True\<rparr>) 0 True False [], None)"
      using cnt cs(1) by (simp add: agrees_def snapshot_def)
    ultimately show ?thesis using exhausted(3) by (auto simp: snapshot_def)
  next
    case (goal_found pq a s3 path)
    have pop: "heap_Pop (items sl, openSet sl) = Some (pq, a)"
      using goal_found(2) same_core_pop[OF core] by simp
    have fresh: "Node (fst pq ! a) \<notin> closedSet sl" using goal_found(3,4) cs(1) by simp
    have "reconstructPath (cameFrom sl) goalNode start = Some path"
      using trail_reconstructPath[OF goal_found(7)] cs(2) c(1) by simp
    then have it: "Search_iteration arrival ctx G start goalNode h W sl =
        Some (Inr (\<lparr>Path = path, TotalCost = GScore (fst pq ! a),
                    ExpandedNodes = expandedNodes sl + 1, Found = True\<rparr>, None))"
      using Search_iteration_pop[OF pop fresh, of arrival ctx G start goalNode h W] goal_found(3) c(1)
      by (simp add: Let_def)
    have "card (closedSet s3) = expandedNodes sl + 1"
      using cnt cs(1) fin goal_found(4) by (simp add: goal_found(5) popped_def)
    then have "agrees (\<lparr>Path = path, TotalCost = GScore (fst pq ! a),
                    ExpandedNodes = expandedNodes sl + 1, Found = True\<rparr>, None)
        (snapshot s3 (goal s) True True path, None)"
      by (simp add: agrees_def snapshot_def)
    with it goal_found(8) show ?thesis by (auto simp: snapshot_def)
  next
    case (expanded pq a s3)
    have pop: "heap_Pop (items sl, openSet sl) = Some (pq, a)"
      using expanded(2) same_core_pop[OF core] by simp
    have fresh: "Node (fst pq ! a) \<notin> closedSet sl" using expanded(4) cs(1) by simp
    define sl2 where "sl2 = sl\<lparr>items := fst pq, openSet := snd pq,
                    openSetMap := (openSetMap sl)(Node (fst pq ! a) := None),
                    closedSet := insert (Node (fst pq ! a)) (closedSet sl),
                    expandedNodes := expandedNodes sl + 1\<rparr>"
    have it: "Search_iteration arrival ctx G start goalNode h W sl =
        (case expand arrival ctx G goalNode h W (fst pq ! a) sl2 of
           None \<Rightarrow> None
         | Some (st3, cancelled) \<Rightarrow>
             if cancelled then
               Some (Inr (\<lparr>Path = [], TotalCost = 0, ExpandedNodes = 0, Found = False\<rparr>,
                          Some ContextDone))
             else Some (Inl st3))"
      using Search_iteration_pop[OF pop fresh, of arrival ctx G start goalNode h W] expanded(3) c(1)
      by (simp add: Let_def sl2_def)
    have core2: "same_core sl2 s3"
      using core by (simp add: same_core_def sl2_def expanded(5) popped_def)
    from expand_same_core[OF core2, of arrival ctx G goalNode h W "fst pq ! a"]
    have rel: "rel_option (rel_prod same_core (=)) (expand arrival ctx G goalNode h W (fst pq ! a) sl2)
        (expand arrival ctx G (goal s) (heuristic s) (workers s) (fst pq ! a) s3)"
      using c by simp
    show ?thesis
    proof (cases "expand arrival ctx G goalNode h W (fst pq ! a) sl2")
      case None
      with rel have "expand arrival ctx G (goal s) (heuristic s) (workers s) (fst pq ! a) s3 = None"
        by (cases "expand arrival ctx G (goal s) (heuristic s) (workers s) (fst pq ! a) s3") simp_all
      with None it expanded(8) show ?thesis by simp
    next
      case (Some x)
      obtain sl' cancelled where x: "x = (sl', cancelled)" by (cases x)
      with Some rel obtain s4 where
        ex: "expand arrival ctx G (goal s) (heuristic s) (workers s) (fst pq ! a) s3 =
               Some (s4, cancelled)"
        and core': "same_core sl' s4"
        by (cases "expand arrival ctx G (goal s) (heuristic s) (workers s) (fst pq ! a) s3") auto
      show ?thesis
      proof (cases cancelled)
        case True
        have "Search_iteration arrival ctx G start goalNode h W sl =
            Some (Inr (\<lparr>Path = [], TotalCost = 0, ExpandedNodes = 0, Found = False\<rparr>,
                       Some ContextDone))"
          using it Some x True by simp
        moreover have "Step arrival ctx s =
            Some (s4\<lparr>done' := True\<rparr>, interrupted (s4\<lparr>done' := True\<rparr>), Some ContextDone)"
          using expanded(8) ex True by simp
        moreover have "agrees (\<lparr>Path = [], TotalCost = 0, ExpandedNodes = 0, Found = False\<rparr>,
                               Some ContextDone)
            (interrupted (s4\<lparr>done' := True\<rparr>), Some ContextDone)"
          by (simp add: agrees_def interrupted_def)
        ultimately show ?thesis by (auto simp: interrupted_def)
      next
        case False
        from expand_Stepper_fields[OF ex] have "\<not> done' s4"
          using nd by (simp add: expanded(5) popped_def)
        moreover have "Step arrival ctx s =
            Some (s4, snapshot s4 (Node (fst pq ! a)) False False [], None)"
          using expanded(8) ex False by simp
        moreover have "Search_iteration arrival ctx G start goalNode h W sl = Some (Inl sl')"
          using it Some x False by simp
        ultimately show ?thesis using core' by (auto simp: snapshot_def)
      qed
    qed
  qed
qed

lemma stepUntilDone_step:
  "Step arrival ctx s = Some (s', snap, err) \<Longrightarrow> \<not> Done snap \<Longrightarrow>
   stepUntilDone arrival ctx s = stepUntilDone arrival ctx s'"
  by (subst stepUntilDone.simps) simp

lemma stepUntilDone_return:
  "Step arrival ctx s = Some (s', snap, err) \<Longrightarrow> Done snap \<Longrightarrow>
   stepUntilDone arrival ctx s = Some (s', snap, err)"
  by (subst stepUntilDone.simps) simp

lemma orchestrate_mirrored:
  fixes sl :: "('n::zero) SearchLoop" and s :: "'n Stepper"
  assumes ret: "orchestrate arrival ctx G start goalNode h W sl = Some r"
    and perm: "permutes arrival" and I: "stepper_inv G start goalNode h W s"
    and nd: "\<not> done' s" and core: "same_core sl s"
    and cnt: "expandedNodes sl = card (closedSet sl)"
  shows "\<exists>s' snap err. stepUntilDone arrival ctx s = Some (s', snap, err) \<and> agrees r (snap, err)"
proof -
  have "\<forall>s :: 'n Stepper. permutes arrival \<and> stepper_inv G start goalNode h W s \<and> \<not> done' s \<and>
          same_core sl s \<and> expandedNodes sl = card (closedSet sl) \<longrightarrow>
        (\<exists>s' snap err. stepUntilDone arrival ctx s = Some (s', snap, err) \<and> agrees r (snap, err))"
  proof (rule orchestrate.raw_induct[where P = "\<lambda>arrival ctx G start goalNode h W sl r.
        \<forall>s :: 'n Stepper. permutes arrival \<and> stepper_inv G start goalNode h W s \<and> \<not> done' s \<and>
          same_core sl s \<and> expandedNodes sl = card (closedSet sl) \<longrightarrow>
        (\<exists>s' snap err. stepUntilDone arrival ctx s = Some (s', snap, err) \<and> agrees r (snap, err))",
        OF _ ret], goal_cases)
    case (1 orch arrival ctx G start goalNode h W sl r)
    show ?case
    proof (intro allI impI)
      fix s :: "'n Stepper"
      assume a: "permutes arrival \<and> stepper_inv G start goalNode h W s \<and> \<not> done' s \<and>
          same_core sl s \<and> expandedNodes sl = card (closedSet sl)"
      then have perm: "permutes arrival" and I: "stepper_inv G start goalNode h W s"
        and nd: "\<not> done' s" and core: "same_core sl s"
        and cnt: "expandedNodes sl = card (closedSet sl)" by simp_all
      have SL: "state_inv G start sl"
        using I state_inv_same_core[OF core] by (simp add: stepper_inv_def)
      from mirror_step[OF perm I nd core cnt, of ctx]
      show "\<exists>s' snap err. stepUntilDone arrival ctx s = Some (s', snap, err) \<and> agrees r (snap, err)"
      proof (elim disjE exE conjE)
        assume "Search_iteration arrival ctx G start goalNode h W sl = None"
        with 1(2) show ?thesis by simp
      next
        fix sl' s' snap
        assume it: "Search_iteration arrival ctx G start goalNode h W sl = Some (Inl sl')"
          and st: "Step arrival ctx s = Some (s', snap, None)" and d: "\<not> Done snap"
          and core': "same_core sl' s'" and nd': "\<not> done' s'"
        from it 1(2) have "orch arrival ctx G start goalNode h W sl' = Some r" by simp
        moreover have "stepper_inv G start goalNode h W s'" using Step_inv[OF perm I st] .
        moreover have "expandedNodes sl' = card (closedSet sl')"
          using Search_iteration_inv(2)[OF SL cnt perm it] .
        ultimately have "\<exists>s'' snap' err'. stepUntilDone arrival ctx s' = Some (s'', snap', err') \<and>
            agrees r (snap', err')"
          using 1(1) perm nd' core' by blast
        then show ?thesis using stepUntilDone_step[OF st d] by simp
      next
        fix r' s' snap err
        assume it: "Search_iteration arrival ctx G start goalNode h W sl = Some (Inr r')"
          and st: "Step arrival ctx s = Some (s', snap, err)" and d: "Done snap"
          and ag: "agrees r' (snap, err)"
        from it 1(2) have "r = r'" by simp
        with ag stepUntilDone_return[OF st d] show ?thesis by auto
      qed
    qed
  qed
  with perm I nd core cnt show ?thesis by simp
qed

lemma stepUntilDone_mirrored:
  fixes sl :: "('n::zero) SearchLoop" and s :: "'n Stepper"
  assumes ret: "stepUntilDone arrival ctx s = Some (s', t)"
    and perm: "permutes arrival" and I: "stepper_inv G start goalNode h W s"
    and nd: "\<not> done' s" and core: "same_core sl s"
    and cnt: "expandedNodes sl = card (closedSet sl)"
  shows "\<exists>r. orchestrate arrival ctx G start goalNode h W sl = Some r \<and> agrees r t"
proof -
  have "\<forall>sl :: 'n SearchLoop. permutes arrival \<and> stepper_inv G start goalNode h W s \<and> \<not> done' s \<and>
          same_core sl s \<and> expandedNodes sl = card (closedSet sl) \<longrightarrow>
        (\<exists>r. orchestrate arrival ctx G start goalNode h W sl = Some r \<and>
           agrees r (snd (s', t)))"
  proof (rule stepUntilDone.raw_induct[where P = "\<lambda>arrival ctx s x.
        \<forall>sl :: 'n SearchLoop. permutes arrival \<and> stepper_inv G start goalNode h W s \<and> \<not> done' s \<and>
          same_core sl s \<and> expandedNodes sl = card (closedSet sl) \<longrightarrow>
        (\<exists>r. orchestrate arrival ctx G start goalNode h W sl = Some r \<and>
           agrees r (snd x))", OF _ ret], goal_cases)
    case (1 run arrival ctx s x)
    show ?case
    proof (intro allI impI)
      fix sl :: "'n SearchLoop"
      assume a: "permutes arrival \<and> stepper_inv G start goalNode h W s \<and> \<not> done' s \<and>
          same_core sl s \<and> expandedNodes sl = card (closedSet sl)"
      then have perm: "permutes arrival" and I: "stepper_inv G start goalNode h W s"
        and nd: "\<not> done' s" and core: "same_core sl s"
        and cnt: "expandedNodes sl = card (closedSet sl)" by simp_all
      have SL: "state_inv G start sl"
        using I state_inv_same_core[OF core] by (simp add: stepper_inv_def)
      from mirror_step[OF perm I nd core cnt, of ctx]
      show "\<exists>r. orchestrate arrival ctx G start goalNode h W sl = Some r \<and> agrees r (snd x)"
      proof (elim disjE exE conjE)
        assume "Step arrival ctx s = None"
        with 1(2) show ?thesis by simp
      next
        fix sl' s1 snap1
        assume it: "Search_iteration arrival ctx G start goalNode h W sl = Some (Inl sl')"
          and st: "Step arrival ctx s = Some (s1, snap1, None)" and d: "\<not> Done snap1"
          and core': "same_core sl' s1" and nd': "\<not> done' s1"
        from st d 1(2) have "run arrival ctx s1 = Some x" by simp
        moreover have "stepper_inv G start goalNode h W s1" using Step_inv[OF perm I st] .
        moreover have "expandedNodes sl' = card (closedSet sl')"
          using Search_iteration_inv(2)[OF SL cnt perm it] .
        ultimately have "\<exists>r. orchestrate arrival ctx G start goalNode h W sl' = Some r \<and>
           agrees r (snd x)"
          using 1(1) perm nd' core' by blast
        then show ?thesis using orchestrate_step[OF it] by simp
      next
        fix r' s1 snap1 err1
        assume it: "Search_iteration arrival ctx G start goalNode h W sl = Some (Inr r')"
          and st: "Step arrival ctx s = Some (s1, snap1, err1)" and d: "Done snap1"
          and ag: "agrees r' (snap1, err1)"
        from st d 1(2) have "x = (s1, snap1, err1)" by simp
        with ag orchestrate_return[OF it] show ?thesis by auto
      qed
    qed
  qed
  with perm I nd core cnt show ?thesis by simp
qed

lemma initial_mirror:
  "same_core (SearchState.extend (initialState start goalNode h) (SearchLoop.fields 0))
     (NewStepper G start goalNode h W)"
  "\<not> done' (NewStepper G start goalNode h W)"
  "expandedNodes (SearchState.extend (initialState start goalNode h) (SearchLoop.fields 0)) =
     card (closedSet (SearchState.extend (initialState start goalNode h) (SearchLoop.fields 0)))"
  by (simp_all add: same_core_def initialState_eq NewStepper_def heap_Init_empty heap_Push_first
      SearchState.defs SearchLoop.defs)


text \<open>Stepping to completion and \<open>Search\<close>, under the same scheduler and context.\<close>

lemma Search_mirrored:
  assumes "permutes arrival" and "Search arrival ctx G start goalNode h W = Some r"
  shows "\<exists>s' t. stepUntilDone arrival ctx (NewStepper G start goalNode h W) = Some (s', t) \<and>
           agrees r t"
  using orchestrate_mirrored[OF assms(2)[unfolded Search_def] assms(1) NewStepper_inv
      initial_mirror(2) initial_mirror(1) initial_mirror(3)]
  by auto

lemma Stepper_mirrored:
  assumes "permutes arrival"
    and "stepUntilDone arrival ctx (NewStepper G start goalNode h W) = Some (s', t)"
  shows "\<exists>r. Search arrival ctx G start goalNode h W = Some r \<and> agrees r t"
  using stepUntilDone_mirrored[OF assms(2,1) NewStepper_inv
      initial_mirror(2) initial_mirror(1) initial_mirror(3)]
  by (simp add: Search_def)

section \<open>The goal is found exactly when it can be reached\<close>

lemma trail_reaches:
  assumes L: "links_ok G start st" and t: "trail (cameFrom st) start v p"
  shows "reaches G start v"
  using t
proof (induction rule: trail.induct)
  case trail_start
  show ?case by (rule reaches_refl)
next
  case (trail_link v u p)
  from links_okD(2)[OF L trail_link.hyps(2)] obtain nb where "nb \<in> set (G u)" "ID nb = v"
    by blast
  with trail_link.IH show ?case using reaches_edge by fastforce
qed

lemma exhausted_closed:
  assumes I: "state_inv G start st" and cov: "covered G st" and e: "openSet st = []"
    and r: "reaches G start v"
  shows "v \<in> closedSet st"
  using r
proof (induction rule: reaches.induct)
  case reaches_refl
  from I have "started start st" by (simp add: state_inv_def)
  with e show ?case by (simp add: started_def)
next
  case (reaches_edge v nb)
  from I have F: "frontier_ok start st" by (simp add: state_inv_def)
  from cov reaches_edge.IH reaches_edge.hyps(2)
  have "ID nb \<in> closedSet st \<or> openSetMap st (ID nb) \<noteq> None"
    unfolding covered_def by blast
  then show ?case
  proof
    assume "ID nb \<in> closedSet st"
    then show ?thesis .
  next
    assume "openSetMap st (ID nb) \<noteq> None"
    then obtain a where "openSetMap st (ID nb) = Some a" by blast
    from frontier_ok_mapD(1)[OF F this] e show ?thesis by simp
  qed
qed

lemma Search_found_iff:
  assumes perm: "permutes arrival"
    and ret: "Search arrival ctx G start goalNode h W = Some (res, err)"
    and live: "err \<noteq> Some ContextDone"
  shows "Found res \<longleftrightarrow> reaches G start goalNode"
proof -
  from Search_final[OF ret] obtain st where
    reach: "Search_reach arrival ctx G start goalNode h W st"
    and it: "Search_iteration arrival ctx G start goalNode h W st = Some (Inr (res, err))"
    by blast
  note R = Search_reach_inv[OF perm reach]
  from R(1) it show ?thesis
  proof (cases rule: Search_iteration_returns)
    case not_found
    have "\<not> reaches G start goalNode"
      using exhausted_closed[OF R(1,3) not_found(1)] R(4) by blast
    with not_found(3) show ?thesis by simp
  next
    case (found pq a path)
    from R(1) have "links_ok G start st" by (simp add: state_inv_def)
    from trail_reaches[OF this found(5)] found(6) show ?thesis by simp
  next
    case interrupted
    with live show ?thesis by simp
  qed
qed

section \<open>The example runs\<close>

lemma Some_the: "\<not> Option.is_none x \<Longrightarrow> x = Some (the x)"
  by (cases x) auto

lemma Some_pair_the: "\<not> Option.is_none x \<Longrightarrow> x = Some (fst (the x), snd (the x))"
  by (cases x) auto

lemma Some_triple_the:
  "\<not> Option.is_none x \<Longrightarrow> x = Some (fst (the x), fst (snd (the x)), snd (snd (the x)))"
  by (cases x) auto

lemma Some_Inl_the:
  "\<not> Option.is_none x \<Longrightarrow> isl (the x) \<Longrightarrow> x = Some (Inl (projl (the x)))"
  by (cases x) auto

lemma permutes_inOrder: "permutes inOrder"
  by (simp add: permutes_def inOrder_def)

lemma permutes_reversed: "permutes reversed"
  by (simp add: permutes_def reversed_def)

lemma detourLoop0_iteration:
  "Search_iteration inOrder background detourGraph 0 6 zeroHeuristic 3 detourLoop0 =
     Some (Inl detourLoop1)"
proof -
  have "\<not> Option.is_none (Search_iteration inOrder background detourGraph 0 6 zeroHeuristic 3 detourLoop0)"
    and "isl (the (Search_iteration inOrder background detourGraph 0 6 zeroHeuristic 3 detourLoop0))"
    by code_simp+
  then show ?thesis unfolding detourLoop1_def by (rule Some_Inl_the)
qed

lemma detourLoop1_iteration:
  "Search_iteration inOrder background detourGraph 0 6 zeroHeuristic 3 detourLoop1 =
     Some (Inl detourLoop2)"
proof -
  have "\<not> Option.is_none (Search_iteration inOrder background detourGraph 0 6 zeroHeuristic 3 detourLoop1)"
    and "isl (the (Search_iteration inOrder background detourGraph 0 6 zeroHeuristic 3 detourLoop1))"
    by code_simp+
  then show ?thesis unfolding detourLoop2_def by (rule Some_Inl_the)
qed

lemma detourLoop2_iteration:
  "Search_iteration inOrder background detourGraph 0 6 zeroHeuristic 3 detourLoop2 =
     Some (Inl detourLoop3)"
proof -
  have "\<not> Option.is_none (Search_iteration inOrder background detourGraph 0 6 zeroHeuristic 3 detourLoop2)"
    and "isl (the (Search_iteration inOrder background detourGraph 0 6 zeroHeuristic 3 detourLoop2))"
    by code_simp+
  then show ?thesis unfolding detourLoop3_def by (rule Some_Inl_the)
qed

lemma detourStepper0_Step:
  "Step inOrder background detourStepper0 =
     Some (detourStepper1, fst (snd (the (Step inOrder background detourStepper0))),
           snd (snd (the (Step inOrder background detourStepper0))))"
proof -
  have "\<not> Option.is_none (Step inOrder background detourStepper0)" by code_simp
  then show ?thesis unfolding detourStepper1_def by (rule Some_triple_the)
qed

lemma detourStepper1_Step:
  "Step inOrder background detourStepper1 =
     Some (detourStepper2, fst (snd (the (Step inOrder background detourStepper1))),
           snd (snd (the (Step inOrder background detourStepper1))))"
proof -
  have "\<not> Option.is_none (Step inOrder background detourStepper1)" by code_simp
  then show ?thesis unfolding detourStepper2_def by (rule Some_triple_the)
qed

lemma detourStepper2_Step:
  "Step inOrder background detourStepper2 =
     Some (detourStepper3, fst (snd (the (Step inOrder background detourStepper2))),
           snd (snd (the (Step inOrder background detourStepper2))))"
proof -
  have "\<not> Option.is_none (Step inOrder background detourStepper2)" by code_simp
  then show ?thesis unfolding detourStepper3_def by (rule Some_triple_the)
qed

lemma detourLoop0_reach:
  "Search_reach inOrder background detourGraph 0 6 zeroHeuristic 3 detourLoop0"
  unfolding detourLoop0_def by (rule Search_reach_init)

lemma detourLoop1_reach:
  "Search_reach inOrder background detourGraph 0 6 zeroHeuristic 3 detourLoop1"
  using detourLoop0_reach detourLoop0_iteration by (rule Search_reach_step)

lemma detourStepper0_reach:
  "Stepper_reach inOrder background detourGraph 0 6 zeroHeuristic 3 detourStepper0"
  unfolding detourStepper0_def by (rule Stepper_reach_init)

lemma detourStepper1_reach:
  "Stepper_reach inOrder background detourGraph 0 6 zeroHeuristic 3 detourStepper1"
  using detourStepper0_reach detourStepper0_Step by (rule Stepper_reach_step)

lemma pushProposal_applied:
  "applyProposal (receiving detourLoop1) pushProposal =
     Some (the (applyProposal (receiving detourLoop1) pushProposal))"
proof -
  have "\<not> Option.is_none (applyProposal (receiving detourLoop1) pushProposal)" by code_simp
  then show ?thesis by (rule Some_the)
qed

lemma pushProposal_facts:
  "0 \<in> closedSet detourLoop1" "5 \<in> closedSet (receiving detourLoop1)"
  "4 \<in> set (openSet (the (applyProposal (receiving detourLoop1) pushProposal)))"
  "4 \<notin> set (openSet (receiving detourLoop1))"
  "0 \<in> closedSet detourStepper1"
  by code_simp+

lemma betterProposal_applied:
  "applyProposal (receiving detourLoop2) betterProposal =
     Some (the (applyProposal (receiving detourLoop2) betterProposal))"
proof -
  have "\<not> Option.is_none (applyProposal (receiving detourLoop2) betterProposal)" by code_simp
  then show ?thesis by (rule Some_the)
qed

lemma betterProposal_facts:
  "pathCostFromStart (receiving detourLoop2) 3 = Some (float64 7)"
  "pathCostFromStart (the (applyProposal (receiving detourLoop2) betterProposal)) 3 =
     Some (float64 3)"
  "float64 3 \<noteq> float64 7"
  by code_simp+

lemma detourLoop1_pop:
  "heap_Pop (items detourLoop1, openSet detourLoop1) =
     Some (fst (the (heap_Pop (items detourLoop1, openSet detourLoop1))),
           snd (the (heap_Pop (items detourLoop1, openSet detourLoop1))))"
proof -
  have "\<not> Option.is_none (heap_Pop (items detourLoop1, openSet detourLoop1))" by code_simp
  then show ?thesis by (rule Some_pair_the)
qed

lemma detourStepper1_pop:
  "heap_Pop (items detourStepper1, openSet detourStepper1) =
     Some (fst (the (heap_Pop (items detourStepper1, openSet detourStepper1))),
           snd (the (heap_Pop (items detourStepper1, openSet detourStepper1))))"
proof -
  have "\<not> Option.is_none (heap_Pop (items detourStepper1, openSet detourStepper1))" by code_simp
  then show ?thesis by (rule Some_pair_the)
qed

lemma stranded_iteration:
  "Search_iteration inOrder background strandedGraph 0 6 zeroHeuristic 3 detourLoop0 =
     Some (Inl strandedLoop1)"
proof -
  have "\<not> Option.is_none (Search_iteration inOrder background strandedGraph 0 6 zeroHeuristic 3 detourLoop0)"
    and "isl (the (Search_iteration inOrder background strandedGraph 0 6 zeroHeuristic 3 detourLoop0))"
    by code_simp+
  then show ?thesis unfolding strandedLoop1_def by (rule Some_Inl_the)
qed

lemma strandedLoop1_reach:
  "Search_reach inOrder background strandedGraph 0 6 zeroHeuristic 3 strandedLoop1"
proof -
  have "Search_reach inOrder background strandedGraph 0 6 zeroHeuristic 3 detourLoop0"
    unfolding detourLoop0_def by (rule Search_reach_init)
  then show ?thesis using stranded_iteration by (rule Search_reach_step)
qed

lemma strandedLoop1_empty: "openSet strandedLoop1 = []"
  by code_simp

lemma strandedLoop1_closed: "card (closedSet strandedLoop1) = 1"
proof -
  have "closedSet strandedLoop1 = {0}" by code_simp
  then show ?thesis by simp
qed

lemma halted_Search:
  "Search inOrder cancelledCtx pairGraph 0 1 zeroHeuristic 1 =
     Some (\<lparr>Path = [], TotalCost = 0, ExpandedNodes = 0, Found = False\<rparr>, Some ContextDone)"
  by code_simp

lemma pairStepper0_Step:
  "Step inOrder background pairStepper0 = Some (pairStepper1, pairSnapshot1, None)"
proof -
  have "\<not> Option.is_none (Step inOrder background pairStepper0)" by code_simp
  moreover have "snd (snd (the (Step inOrder background pairStepper0))) = None" by code_simp
  ultimately show ?thesis unfolding pairStepper1_def pairSnapshot1_def
    by (metis Some_triple_the)
qed

lemma pairStepper1_Step:
  "Step inOrder background pairStepper1 = Some (pairStepper2, pairSnapshot2, None)"
proof -
  have "\<not> Option.is_none (Step inOrder background pairStepper1)" by code_simp
  moreover have "snd (snd (the (Step inOrder background pairStepper1))) = None" by code_simp
  ultimately show ?thesis unfolding pairStepper2_def pairSnapshot2_def
    by (metis Some_triple_the)
qed

lemma pairStepper0_reach:
  "Stepper_reach inOrder background pairGraph 0 1 zeroHeuristic 1 pairStepper0"
  unfolding pairStepper0_def by (rule Stepper_reach_init)

lemma pairStepper1_reach:
  "Stepper_reach inOrder background pairGraph 0 1 zeroHeuristic 1 pairStepper1"
  using pairStepper0_reach pairStepper0_Step by (rule Stepper_reach_step)

lemma pairStepper1_pop:
  "heap_Pop (items pairStepper1, openSet pairStepper1) =
     Some (fst (the (heap_Pop (items pairStepper1, openSet pairStepper1))),
           snd (the (heap_Pop (items pairStepper1, openSet pairStepper1))))"
proof -
  have "\<not> Option.is_none (heap_Pop (items pairStepper1, openSet pairStepper1))" by code_simp
  then show ?thesis by (rule Some_pair_the)
qed

lemma pairStepper1_facts:
  "\<not> done' pairStepper1"
  "Node (fst (fst (the (heap_Pop (items pairStepper1, openSet pairStepper1)))) !
         snd (the (heap_Pop (items pairStepper1, openSet pairStepper1)))) = goal pairStepper1"
  "goal pairStepper1 = 1"
  "openSet pairStepper1 \<noteq> []"
  by code_simp+

lemma pairSnapshot_facts:
  "Done pairSnapshot2" "snapFound pairSnapshot2" "snapPath pairSnapshot2 = [0, 1]"
  "Current pairSnapshot2 = 1" "StepIndex pairSnapshot2 = 2"
  "Done pairSnapshot3" "snapFound pairSnapshot3" "snapPath pairSnapshot3 = []"
  "Current pairSnapshot3 = 0" "StepIndex pairSnapshot3 = 2"
  "\<not> Done pairSnapshot1" "StepIndex pairSnapshot1 = 1"
  by code_simp+

lemma pairStepper2_done: "done' pairStepper2"
  by code_simp

lemma pairStepper2_Step:
  "Step inOrder background pairStepper2 = Some (pairStepper2, pairSnapshot3, None)"
proof -
  have "Step inOrder background pairStepper2 =
      Some (pairStepper2, snapshot pairStepper2 0 True (found pairStepper2) [], None)"
    using pairStepper2_done by (rule Step_done)
  then show ?thesis by (simp add: pairSnapshot3_def)
qed

lemma strandedStepper_Step:
  "Step inOrder background (NewStepper strandedGraph 0 6 zeroHeuristic 3) =
     Some (strandedStepper1,
           fst (snd (the (Step inOrder background (NewStepper strandedGraph 0 6 zeroHeuristic 3)))),
           snd (snd (the (Step inOrder background (NewStepper strandedGraph 0 6 zeroHeuristic 3)))))"
  "Step inOrder background strandedStepper1 = Some (strandedStepper2, strandedSnapshot2, None)"
proof -
  have "\<not> Option.is_none (Step inOrder background (NewStepper strandedGraph 0 6 zeroHeuristic 3))"
    by code_simp
  then show "Step inOrder background (NewStepper strandedGraph 0 6 zeroHeuristic 3) =
     Some (strandedStepper1,
           fst (snd (the (Step inOrder background (NewStepper strandedGraph 0 6 zeroHeuristic 3)))),
           snd (snd (the (Step inOrder background (NewStepper strandedGraph 0 6 zeroHeuristic 3)))))"
    unfolding strandedStepper1_def by (rule Some_triple_the)
  have "\<not> Option.is_none (Step inOrder background strandedStepper1)" by code_simp
  moreover have "snd (snd (the (Step inOrder background strandedStepper1))) = None" by code_simp
  ultimately show "Step inOrder background strandedStepper1 =
      Some (strandedStepper2, strandedSnapshot2, None)"
    unfolding strandedStepper2_def strandedSnapshot2_def by (metis Some_triple_the)
qed

lemma strandedStepper1_reach:
  "Stepper_reach inOrder background strandedGraph 0 6 zeroHeuristic 3 strandedStepper1"
  using Stepper_reach_init strandedStepper_Step(1) by (rule Stepper_reach_step)

lemma strandedSnapshot2_facts: "Done strandedSnapshot2" "\<not> snapFound strandedSnapshot2"
  by code_simp+

lemma halted_Step:
  "Step inOrder cancelledCtx pairStepper0 =
     Some (haltedStepper1, haltedSnapshot1, Some ContextDone)"
proof -
  have "\<not> Option.is_none (Step inOrder cancelledCtx pairStepper0)" by code_simp
  moreover have "snd (snd (the (Step inOrder cancelledCtx pairStepper0))) = Some ContextDone"
    by code_simp
  ultimately show ?thesis unfolding haltedStepper1_def haltedSnapshot1_def
    by (metis Some_triple_the)
qed

lemma halted_reach:
  "Stepper_reach inOrder cancelledCtx pairGraph 0 1 zeroHeuristic 1 pairStepper0"
  unfolding pairStepper0_def by (rule Stepper_reach_init)

lemma haltedSnapshot1_facts: "Done haltedSnapshot1" "0 \<in> closedSet haltedStepper1"
  by code_simp+

section \<open>The claims\<close>

text \<open>
  C1. Claimed: for every finite graph with non-negative edge costs and every admissible,
  consistent heuristic, if the goal is reachable then \<open>Search\<close> returns \<open>Found = true\<close> and
  the cost of a shortest path. The code does not: on \<open>detourGraph\<close> with the zero
  heuristic, three workers, a context that is not cancelled and proposals received in
  dispatch order, \<open>Search\<close> returns the direct edge from 0 to 6 of cost 5, although the
  walk 0, 5, 1, 3, 6 costs 4. \<open>PriorityQueue.Push\<close> never records \<open>IndexInQueue\<close>, so the
  item of node 3, pushed without being swapped, still carries index 0 when its score
  drops from 7 to 3; \<open>heap.Fix\<close> is then applied to position 0 and leaves the item below
  a parent of score 6, and the goal (score 5) is popped before it. With two workers the
  same call never returns, whatever the arrival order and the context: node 0 has three
  neighbours.
\<close>

theorem Search_detour_suboptimal:
  "Search inOrder background detourGraph 0 6 zeroHeuristic 3 =
     Some (\<lparr>Path = [0, 6], TotalCost = float64 5, ExpandedNodes = 4, Found = True\<rparr>, None) \<and>
   walk_cost detourGraph [0, 5, 1, 3, 6] (float64 4) \<and>
   Search arrival ctx detourGraph 0 6 zeroHeuristic 2 = None"
proof (intro conjI)
  show "Search inOrder background detourGraph 0 6 zeroHeuristic 3 =
     Some (\<lparr>Path = [0, 6], TotalCost = float64 5, ExpandedNodes = 4, Found = True\<rparr>, None)"
    by code_simp
  show "walk_cost detourGraph [0, 5, 1, 3, 6] (float64 4)"
    by code_simp
  show "Search arrival ctx detourGraph 0 6 zeroHeuristic 2 = None"
    by code_simp
qed

text \<open>
  C2. Claimed: after a Stepper has returned a snapshot with \<open>Done = true\<close>, every
  subsequent \<open>Step\<close> call returns a snapshot identical to it in every field and mutates
  no Stepper state. The code keeps the state, but its terminal branch builds the snapshot
  anew, with \<open>Path: nil\<close> and without \<open>Current\<close>: on \<open>pairGraph\<close> the goal-found snapshot
  has path 0, 1 and current node 1, the snapshot of the next call has the empty path and
  current node 0.
\<close>

theorem later_snapshot_differs:
  "Step inOrder background pairStepper1 = Some (pairStepper2, pairSnapshot2, None) \<and>
   Done pairSnapshot2 \<and>
   Step inOrder background pairStepper2 = Some (pairStepper2, pairSnapshot3, None) \<and>
   snapPath pairSnapshot2 = [0, 1] \<and> snapPath pairSnapshot3 = [] \<and>
   Current pairSnapshot2 = 1 \<and> Current pairSnapshot3 = 0 \<and>
   pairSnapshot3 \<noteq> pairSnapshot2"
proof -
  have "snapPath pairSnapshot3 \<noteq> snapPath pairSnapshot2"
    by (simp add: pairSnapshot_facts)
  then have "pairSnapshot3 \<noteq> pairSnapshot2" by auto
  then show ?thesis
    using pairStepper1_Step pairStepper2_Step pairSnapshot_facts by simp
qed

text \<open>
  C2, as amended. After a Stepper a caller can hold has returned a snapshot with
  \<open>Done = true\<close>, every later \<open>Step\<close> call, whatever the scheduler and the context do,
  leaves the Stepper as it is and returns a nil error and a snapshot with \<open>Done = true\<close>,
  the \<open>Found\<close> flag and the \<open>StepIndex\<close> of the terminal snapshot, \<open>Current\<close> reset to the
  zero value, the path reset to nil, and \<open>Open\<close>, \<open>Closed\<close> and \<open>CameFrom\<close> copied from the
  maps of the Stepper. When the terminal call returned a nil error, these are the maps of
  the terminal snapshot; when it reports an exhausted frontier (nil error and
  \<open>Found = false\<close>), the later snapshots are identical to it in every field. When the
  terminal call returned the error of a done context, its snapshot has nil maps, while the
  later ones show the maps as the interrupted step left them, with a closed node.
\<close>

theorem Step_after_done:
  assumes "permutes arrival" and "Stepper_reach arrival ctx G start goalNode h W s"
    and "Step arrival ctx s = Some (s', snap, err)" and "Done snap"
  shows "Step arrival' ctx' s' =
           Some (s', \<lparr>Current = 0, Open = openSetToBoolMap s', Closed = closedSet s',
                     CameFrom = cameFrom s', Done = True, snapFound = snapFound snap,
                     snapPath = [], StepIndex = StepIndex snap\<rparr>, None) \<and>
         (err = None \<longrightarrow>
            Step arrival' ctx' s' = Some (s', snap\<lparr>Current := 0, snapPath := []\<rparr>, None)) \<and>
         (err = None \<and> \<not> snapFound snap \<longrightarrow> Step arrival' ctx' s' = Some (s', snap, None)) \<and>
         (err \<noteq> None \<longrightarrow> Closed snap = {} \<and> closedSet s' \<noteq> {})"
proof -
  from Stepper_reach_inv[OF assms(1,2)] have I: "state_inv G start s"
    and G: "graph s = G" and f: "found s \<longrightarrow> done' s" by (simp_all add: stepper_inv_def)
  from I G show ?thesis
  proof (cases rule: Step_cases[where arrival = arrival and ctx = ctx])
    case finished
    with assms(3) have "s' = s" "snap = snapshot s 0 True (found s) []" "err = None" by auto
    with Step_done[OF finished(1), of arrival' ctx'] show ?thesis by (simp add: snapshot_def)
  next
    case exhausted
    with assms(3) have s': "s' = s\<lparr>done' := True\<rparr>"
      and snap: "snap = snapshot (s\<lparr>done' := True\<rparr>) 0 True False []" and e: "err = None"
      by auto
    have "Step arrival' ctx' s' = Some (s', snapshot s' 0 True (found s') [], None)"
      by (rule Step_done) (simp add: s')
    moreover have "found s' = False" using f exhausted(1) by (simp add: s')
    ultimately show ?thesis by (simp add: s' snap e snapshot_def)
  next
    case (goal_found pq a s3 path)
    with assms(3) have s': "s' = s3" and snap: "snap = snapshot s3 (goal s) True True path"
      and e: "err = None" by auto
    have d: "done' s3" "found s3" by (simp_all add: goal_found(5))
    have "Step arrival' ctx' s3 = Some (s3, snapshot s3 0 True (found s3) [], None)"
      using d(1) by (rule Step_done)
    then show ?thesis using d(2) by (simp add: s' snap e snapshot_def)
  next
    case (expanded pq a s3)
    from expanded(8) assms(3) show ?thesis
    proof (cases rule: Step_expanded)
      case went_on
      with assms(4) show ?thesis by (simp add: snapshot_def)
    next
      case (halted s4)
      have d: "done' s'" by (simp add: halted(2))
      have "found s' = found s3" using expand_Stepper_fields[OF halted(1)] by (simp add: halted(2))
      then have nf: "\<not> found s'" using f expanded(1) by (simp add: expanded(5) popped_def)
      have "closedSet s' = closedSet s3" using expand_closedSet[OF halted(1)] by (simp add: halted(2))
      then have c: "closedSet s' \<noteq> {}" by (simp add: expanded(5))
      have "Step arrival' ctx' s' = Some (s', snapshot s' 0 True (found s') [], None)"
        using d by (rule Step_done)
      then show ?thesis using nf c by (simp add: halted(3,4) snapshot_def interrupted_def)
    qed
  qed
qed

theorem Step_after_done_witness:
  "Step inOrder background pairStepper2 =
     Some (pairStepper2, pairSnapshot2\<lparr>Current := 0, snapPath := []\<rparr>, None) \<and>
   Step inOrder background strandedStepper2 = Some (strandedStepper2, strandedSnapshot2, None) \<and>
   Closed haltedSnapshot1 = {} \<and> closedSet haltedStepper1 \<noteq> {}"
  using Step_after_done[OF permutes_inOrder pairStepper1_reach pairStepper1_Step
      pairSnapshot_facts(1), of inOrder background]
    Step_after_done[OF permutes_inOrder strandedStepper1_reach strandedStepper_Step(2)
      strandedSnapshot2_facts(1), of inOrder background] strandedSnapshot2_facts(2)
    Step_after_done[OF permutes_inOrder halted_reach halted_Step haltedSnapshot1_facts(1),
      of inOrder background]
  by blast

text \<open>
  C3. Claimed: for every run of \<open>Search\<close> that returns \<open>Found = true\<close>, the returned path
  is non-empty, leads from the start to the goal along edges of the graph, and the costs
  of these edges sum to the returned \<open>TotalCost\<close>. The code does not keep the last part:
  \<open>TotalCost\<close> is the \<open>GScore\<close> of the popped queue item, and a proposal that lowers the
  g-score of a queued node rewrites the item only if it also lowers its \<open>FCost\<close>, which
  in \<open>float64\<close> it need not. On \<open>roundingGraph\<close> with \<open>roundingHeuristic\<close>, two workers, a
  context that is not cancelled and proposals received in dispatch order, the goal 2 is
  first queued with g-score 1 and f-cost \<open>1 + 2 ^ 53\<close>, which rounds to \<open>2 ^ 53\<close>; the
  proposal through node 1 has g-score 0.5 and f-cost \<open>0.5 + 2 ^ 53\<close>, again \<open>2 ^ 53\<close>, so
  the predecessor and the g-score map take the new route while the item keeps g-score 1.
  \<open>Search\<close> returns the path 0, 1, 2, whose two edges cost 0.25 each, with
  \<open>TotalCost\<close> 1.
\<close>

theorem Search_total_cost_is_not_path_cost:
  "Search inOrder background roundingGraph 0 2 roundingHeuristic 2 =
     Some (\<lparr>Path = [0, 1, 2], TotalCost = float64 1, ExpandedNodes = 3, Found = True\<rparr>, None) \<and>
   walk_cost roundingGraph [0, 1, 2] (ldexp 1 (- 1)) \<and>
   \<not> walk_cost roundingGraph [0, 1, 2] (float64 1)"
proof (intro conjI)
  show "Search inOrder background roundingGraph 0 2 roundingHeuristic 2 =
     Some (\<lparr>Path = [0, 1, 2], TotalCost = float64 1, ExpandedNodes = 3, Found = True\<rparr>, None)"
    by code_simp
  show "walk_cost roundingGraph [0, 1, 2] (ldexp 1 (- 1))"
    by code_simp
  show "\<not> walk_cost roundingGraph [0, 1, 2] (float64 1)"
    by code_simp
qed



text \<open>
  C5. Whenever \<open>Search\<close> finds the frontier empty at a loop head, the goal has not been
  popped, and \<open>Search\<close> returns the error \<open>no path found\<close> with a result that has
  \<open>Found = false\<close>, an empty path and \<open>ExpandedNodes\<close> equal to the number of nodes closed
  so far. The outcome is distinct from the two others: \<open>Search\<close> returns this error
  exactly when it finds the frontier empty, a nil error exactly when the result has
  \<open>Found = true\<close>, and with the error of a done context the zero result.
\<close>

theorem exhausted_frontier_reports_not_found:
  assumes "permutes arrival"
  shows "(Search_reach arrival ctx G start goalNode h W sl \<and> openSet sl = [] \<longrightarrow>
            goalNode \<notin> closedSet sl \<and>
            Search arrival ctx G start goalNode h W =
              Some (\<lparr>Path = [], TotalCost = 0, ExpandedNodes = card (closedSet sl),
                     Found = False\<rparr>, Some NoPathFound)) \<and>
         (Search arrival ctx G start goalNode h W = Some (res, err) \<longrightarrow>
            (err = Some NoPathFound \<longleftrightarrow>
               (\<exists>st. Search_reach arrival ctx G start goalNode h W st \<and> openSet st = [])) \<and>
            (err = None \<longleftrightarrow> Found res) \<and>
            (err = Some ContextDone \<longrightarrow>
               res = \<lparr>Path = [], TotalCost = 0, ExpandedNodes = 0, Found = False\<rparr>))"
proof -
  have empty: "goalNode \<notin> closedSet st \<and>
      Search arrival ctx G start goalNode h W =
        Some (\<lparr>Path = [], TotalCost = 0, ExpandedNodes = card (closedSet st),
               Found = False\<rparr>, Some NoPathFound)"
    if reach: "Search_reach arrival ctx G start goalNode h W st" and e: "openSet st = []" for st
  proof -
    note R = Search_reach_inv[OF assms reach]
    have "Search arrival ctx G start goalNode h W = orchestrate arrival ctx G start goalNode h W st"
      using reach by (rule Search_reach_orchestrate)
    also have "\<dots> = Some (\<lparr>Path = [], TotalCost = 0, ExpandedNodes = expandedNodes st,
                       Found = False\<rparr>, Some NoPathFound)"
      using Search_iteration_empty[OF e] by (rule orchestrate_return)
    finally show ?thesis using R(2,4) by simp
  qed
  have returned: "(err = Some NoPathFound \<longleftrightarrow>
               (\<exists>st. Search_reach arrival ctx G start goalNode h W st \<and> openSet st = [])) \<and>
            (err = None \<longleftrightarrow> Found res) \<and>
            (err = Some ContextDone \<longrightarrow>
               res = \<lparr>Path = [], TotalCost = 0, ExpandedNodes = 0, Found = False\<rparr>)"
    if r: "Search arrival ctx G start goalNode h W = Some (res, err)"
  proof -
    from Search_final[OF r] obtain st where
      reach: "Search_reach arrival ctx G start goalNode h W st"
      and ret: "Search_iteration arrival ctx G start goalNode h W st = Some (Inr (res, err))"
      by blast
    have other: "\<not> (\<exists>st. Search_reach arrival ctx G start goalNode h W st \<and> openSet st = [])"
      if "err \<noteq> Some NoPathFound"
      using empty r that by auto
    from Search_reach_inv(1)[OF assms reach] ret show ?thesis
    proof (cases rule: Search_iteration_returns)
      case not_found
      with reach show ?thesis by auto
    next
      case (found pq a path)
      with other show ?thesis by simp
    next
      case interrupted
      with other show ?thesis by simp
    qed
  qed
  from empty returned show ?thesis by blast
qed

theorem exhausted_frontier_reports_not_found_witness:
  "6 \<notin> closedSet strandedLoop1 \<and>
   Search inOrder background strandedGraph 0 6 zeroHeuristic 3 =
     Some (\<lparr>Path = [], TotalCost = 0, ExpandedNodes = 1, Found = False\<rparr>, Some NoPathFound) \<and>
   \<not> (\<exists>st. Search_reach inOrder cancelledCtx pairGraph 0 1 zeroHeuristic 1 st \<and> openSet st = [])"
proof -
  from exhausted_frontier_reports_not_found[OF permutes_inOrder,
      where G = strandedGraph and start = 0 and goalNode = 6 and h = zeroHeuristic and W = 3
        and sl = strandedLoop1 and ctx = background]
    strandedLoop1_reach strandedLoop1_empty strandedLoop1_closed
  have "6 \<notin> closedSet strandedLoop1 \<and>
   Search inOrder background strandedGraph 0 6 zeroHeuristic 3 =
     Some (\<lparr>Path = [], TotalCost = 0, ExpandedNodes = 1, Found = False\<rparr>, Some NoPathFound)"
    by simp
  moreover from exhausted_frontier_reports_not_found[OF permutes_inOrder,
      where G = pairGraph and start = 0 and goalNode = 1 and h = zeroHeuristic and W = 1
        and ctx = cancelledCtx
        and res = "\<lparr>Path = [], TotalCost = 0, ExpandedNodes = 0, Found = False\<rparr>"
        and err = "Some ContextDone"] halted_Search
  have "\<not> (\<exists>st. Search_reach inOrder cancelledCtx pairGraph 0 1 zeroHeuristic 1 st \<and>
      openSet st = [])"
    by simp
  ultimately show ?thesis by blast
qed

text \<open>
  C6. Claimed: for every graph, heuristic, start, goal and worker count, stepping a
  Stepper until \<open>Done = true\<close> yields the same found flag, the same total path cost and
  the same closed-set cardinality as one \<open>Search\<close> call on the same inputs. The order in
  which the proposals of a round are received is not among these inputs, and two of the
  three outcomes depend on it. On \<open>forkGraph\<close> with two workers, \<open>Search\<close> receiving
  proposals in dispatch order expands three nodes, while a Stepper receiving them in
  reverse order ends with two closed nodes. On \<open>tieGraph\<close> with \<open>tieHeuristic\<close>, where no
  queued item is ever given a new score, \<open>Search\<close> receiving proposals in dispatch order
  returns the path 0, 1, 3 with total cost 2, while a Stepper receiving them in reverse
  order ends with the path 0, 2, 3, whose edges cost 3.
\<close>

theorem arrival_order_changes_outcome:
  "ExpandedNodes (fst (the (Search inOrder background forkGraph 0 2 zeroHeuristic 2))) = 3 \<and>
   Done (fst (snd (the (stepUntilDone reversed background
     (NewStepper forkGraph 0 2 zeroHeuristic 2))))) \<and>
   card (Closed (fst (snd (the (stepUntilDone reversed background
     (NewStepper forkGraph 0 2 zeroHeuristic 2)))))) = 2 \<and>
   Search inOrder background tieGraph 0 3 tieHeuristic 2 =
     Some (\<lparr>Path = [0, 1, 3], TotalCost = float64 2, ExpandedNodes = 3, Found = True\<rparr>, None) \<and>
   Done (fst (snd (the (stepUntilDone reversed background
     (NewStepper tieGraph 0 3 tieHeuristic 2))))) \<and>
   snapPath (fst (snd (the (stepUntilDone reversed background
     (NewStepper tieGraph 0 3 tieHeuristic 2))))) = [0, 2, 3] \<and>
   walk_cost tieGraph [0, 2, 3] (float64 3) \<and> \<not> walk_cost tieGraph [0, 2, 3] (float64 2)"
proof -
  have "Closed (fst (snd (the (stepUntilDone reversed background
      (NewStepper forkGraph 0 2 zeroHeuristic 2))))) = {0, 2}"
    by code_simp
  then have "card (Closed (fst (snd (the (stepUntilDone reversed background
      (NewStepper forkGraph 0 2 zeroHeuristic 2)))))) = 2"
    by simp
  moreover have "ExpandedNodes (fst (the (Search inOrder background forkGraph 0 2 zeroHeuristic 2))) = 3"
    by code_simp
  moreover have "Done (fst (snd (the (stepUntilDone reversed background
      (NewStepper forkGraph 0 2 zeroHeuristic 2)))))"
    by code_simp
  moreover have "Search inOrder background tieGraph 0 3 tieHeuristic 2 =
     Some (\<lparr>Path = [0, 1, 3], TotalCost = float64 2, ExpandedNodes = 3, Found = True\<rparr>, None)"
    by code_simp
  moreover have "Done (fst (snd (the (stepUntilDone reversed background
      (NewStepper tieGraph 0 3 tieHeuristic 2)))))"
    by code_simp
  moreover have "snapPath (fst (snd (the (stepUntilDone reversed background
      (NewStepper tieGraph 0 3 tieHeuristic 2))))) = [0, 2, 3]"
    by code_simp
  moreover have "walk_cost tieGraph [0, 2, 3] (float64 3)"
    by code_simp
  moreover have "\<not> walk_cost tieGraph [0, 2, 3] (float64 2)"
    by code_simp
  ultimately show ?thesis by blast
qed

text \<open>
  C6, as amended. For every graph, heuristic, start, goal and worker count, stepping a
  Stepper until \<open>Done = true\<close> yields the same found flag as one \<open>Search\<close> call, whatever
  the orders are in which the two runs receive their proposals, provided neither run ends
  on a done context: the flag tells whether the goal can be reached. When both runs
  receive the proposals of every round in the same order and meet the same context,
  stepping returns exactly when \<open>Search\<close> returns, and then the final snapshot has the
  found flag and the path of the \<open>Search\<close> result (hence the same cost along the path)
  and a closed set with as many nodes as \<open>Search\<close> expanded, and either both runs report
  the done context or neither does.
\<close>

theorem stepping_agrees_with_Search:
  assumes "permutes arrival" and "permutes arrival'"
  shows "(Search arrival ctx G start goalNode h W = None \<longleftrightarrow>
            stepUntilDone arrival ctx (NewStepper G start goalNode h W) = None) \<and>
         (Search arrival ctx G start goalNode h W = Some (res, err) \<and>
          stepUntilDone arrival ctx (NewStepper G start goalNode h W) = Some (s, snap, serr) \<longrightarrow>
            snapFound snap = Found res \<and> snapPath snap = Path res \<and>
            card (Closed snap) = ExpandedNodes res \<and>
            (serr = Some ContextDone \<longleftrightarrow> err = Some ContextDone)) \<and>
         (Search arrival ctx G start goalNode h W = Some (res, err) \<and>
          err \<noteq> Some ContextDone \<and>
          stepUntilDone arrival' ctx' (NewStepper G start goalNode h W) = Some (s', snap', None) \<longrightarrow>
            snapFound snap' = Found res)"
proof -
  have A: "Search arrival ctx G start goalNode h W = None \<longleftrightarrow>
            stepUntilDone arrival ctx (NewStepper G start goalNode h W) = None"
  proof
    assume n: "Search arrival ctx G start goalNode h W = None"
    show "stepUntilDone arrival ctx (NewStepper G start goalNode h W) = None"
    proof (cases "stepUntilDone arrival ctx (NewStepper G start goalNode h W)")
      case None
      then show ?thesis .
    next
      case (Some x)
      with Stepper_mirrored[OF assms(1), of ctx G start goalNode h W "fst x" "snd x"] n
      show ?thesis by simp
    qed
  next
    assume n: "stepUntilDone arrival ctx (NewStepper G start goalNode h W) = None"
    show "Search arrival ctx G start goalNode h W = None"
    proof (cases "Search arrival ctx G start goalNode h W")
      case None
      then show ?thesis .
    next
      case (Some x)
      with Search_mirrored[OF assms(1) Some] n show ?thesis by simp
    qed
  qed
  have B: "snapFound snap = Found res \<and> snapPath snap = Path res \<and>
      card (Closed snap) = ExpandedNodes res \<and>
      (serr = Some ContextDone \<longleftrightarrow> err = Some ContextDone)"
    if r: "Search arrival ctx G start goalNode h W = Some (res, err)"
      and t: "stepUntilDone arrival ctx (NewStepper G start goalNode h W) = Some (s, snap, serr)"
  proof -
    from Search_mirrored[OF assms(1) r] t have "agrees (res, err) (snap, serr)" by auto
    then show ?thesis by (simp add: agrees_def)
  qed
  have C: "snapFound snap' = Found res"
    if r: "Search arrival ctx G start goalNode h W = Some (res, err)"
      and live: "err \<noteq> Some ContextDone"
      and t: "stepUntilDone arrival' ctx' (NewStepper G start goalNode h W) = Some (s', snap', None)"
  proof -
    from Stepper_mirrored[OF assms(2) t] obtain res' err' where
      r': "Search arrival' ctx' G start goalNode h W = Some (res', err')"
      and ag: "agrees (res', err') (snap', None)" by auto
    from ag have live': "err' \<noteq> Some ContextDone" and f: "snapFound snap' = Found res'"
      by (simp_all add: agrees_def)
    from Search_found_iff[OF assms(1) r live] Search_found_iff[OF assms(2) r' live'] f
    show ?thesis by simp
  qed
  from A B C show ?thesis by blast
qed

theorem stepping_agrees_with_Search_witness:
  "snapFound (fst (snd (the (stepUntilDone inOrder background
     (NewStepper forkGraph 0 2 zeroHeuristic 2))))) \<and>
   snapPath (fst (snd (the (stepUntilDone inOrder background
     (NewStepper forkGraph 0 2 zeroHeuristic 2))))) = [0, 2] \<and>
   card (Closed (fst (snd (the (stepUntilDone inOrder background
     (NewStepper forkGraph 0 2 zeroHeuristic 2)))))) = 3 \<and>
   snapFound (fst (snd (the (stepUntilDone reversed background
     (NewStepper forkGraph 0 2 zeroHeuristic 2)))))"
proof -
  define res :: "nat Result" where
    "res = \<lparr>Path = [0, 2], TotalCost = float64 1, ExpandedNodes = 3, Found = True\<rparr>"
  define t where "t = the (stepUntilDone inOrder background (NewStepper forkGraph 0 2 zeroHeuristic 2))"
  define t' where "t' = the (stepUntilDone reversed background (NewStepper forkGraph 0 2 zeroHeuristic 2))"
  have 1: "Search inOrder background forkGraph 0 2 zeroHeuristic 2 = Some (res, None)"
    unfolding res_def by code_simp
  have "\<not> Option.is_none (stepUntilDone inOrder background (NewStepper forkGraph 0 2 zeroHeuristic 2))"
    by code_simp
  then have 2: "stepUntilDone inOrder background (NewStepper forkGraph 0 2 zeroHeuristic 2) =
      Some (fst t, fst (snd t), snd (snd t))"
    unfolding t_def by (rule Some_triple_the)
  have "\<not> Option.is_none (stepUntilDone reversed background (NewStepper forkGraph 0 2 zeroHeuristic 2))"
    by code_simp
  moreover have "snd (snd (the (stepUntilDone reversed background
      (NewStepper forkGraph 0 2 zeroHeuristic 2)))) = None"
    by code_simp
  ultimately have 3: "stepUntilDone reversed background (NewStepper forkGraph 0 2 zeroHeuristic 2) =
      Some (fst t', fst (snd t'), None)"
    unfolding t'_def by (metis Some_triple_the)
  have live: "(None :: error option) \<noteq> Some ContextDone" by simp
  from stepping_agrees_with_Search[OF permutes_inOrder permutes_reversed,
      where ctx = background and ctx' = background and G = forkGraph and start = 0
        and goalNode = 2 and h = zeroHeuristic and W = 2 and res = res and err = None
        and s = "fst t" and snap = "fst (snd t)" and serr = "snd (snd t)"
        and s' = "fst t'" and snap' = "fst (snd t')"] 1 2 3 live
  have f: "snapFound (fst (snd t)) = Found res" and p: "snapPath (fst (snd t)) = Path res"
    and c: "card (Closed (fst (snd t))) = ExpandedNodes res"
    and f': "snapFound (fst (snd t')) = Found res"
    by blast+
  have r: "Found res" "Path res = [0, 2]" "ExpandedNodes res = 3"
    by (simp_all add: res_def)
  have "snapFound (fst (snd t))" using f r(1) by simp
  moreover have "snapPath (fst (snd t)) = [0, 2]" using p r(2) by simp
  moreover have "card (Closed (fst (snd t))) = 3" using c r(3) by simp
  moreover have "snapFound (fst (snd t'))" using f' r(1) by simp
  ultimately show ?thesis unfolding t_def t'_def by blast
qed

text \<open>
  C7. Throughout every run of \<open>Search\<close> and every sequence of \<open>Step\<close> calls the closed set
  only grows, and no node already in the closed set is pushed into the frontier: an
  iteration of the orchestrator loop and a \<open>Step\<close> call leave every closed node closed;
  a received proposal does not change the closed set, and an item it adds to the queue is
  the item of the proposal's target, which is not closed.
\<close>

theorem closed_set_only_grows:
  "(Search_iteration arrival ctx G start goalNode h W sl = Some (Inl sl') \<longrightarrow>
      closedSet sl \<subseteq> closedSet sl') \<and>
   (Step arrival ctx s = Some (s', snap, err) \<longrightarrow> closedSet s \<subseteq> closedSet s') \<and>
   (applyProposal st p = Some st' \<longrightarrow>
      closedSet st' = closedSet st \<and>
      (\<forall>a. a \<in> set (openSet st') \<and> a \<notin> set (openSet st) \<longrightarrow>
         Node (items st' ! a) = ToNode p \<and> ToNode p \<notin> closedSet st'))"
proof (intro conjI impI allI)
  assume "Search_iteration arrival ctx G start goalNode h W sl = Some (Inl sl')"
  then show "closedSet sl \<subseteq> closedSet sl'" by (rule Search_iteration_changes(1))
next
  assume "Step arrival ctx s = Some (s', snap, err)"
  then show "closedSet s \<subseteq> closedSet s'" using Step_changes by blast
next
  assume "applyProposal st p = Some st'"
  then show "closedSet st' = closedSet st" by (rule applyProposal_closedSet)
next
  fix a assume ap: "applyProposal st p = Some st'"
    and new: "a \<in> set (openSet st') \<and> a \<notin> set (openSet st)"
  from new have "a \<in> set (openSet st')" and "a \<notin> set (openSet st)" by simp_all
  from applyProposal_pushed[OF ap this]
  show "Node (items st' ! a) = ToNode p" and "ToNode p \<notin> closedSet st'" by blast+
qed

theorem closed_set_only_grows_witness:
  "0 \<in> closedSet detourLoop1 \<and> closedSet detourLoop1 \<subseteq> closedSet detourLoop2 \<and>
   0 \<in> closedSet detourStepper1 \<and> closedSet detourStepper1 \<subseteq> closedSet detourStepper2 \<and>
   5 \<in> closedSet (receiving detourLoop1) \<and>
   closedSet (the (applyProposal (receiving detourLoop1) pushProposal)) =
     closedSet (receiving detourLoop1) \<and>
   Node (items (the (applyProposal (receiving detourLoop1) pushProposal)) ! 4) = 4 \<and>
   4 \<notin> closedSet (the (applyProposal (receiving detourLoop1) pushProposal))"
proof -
  have t: "ToNode pushProposal = 4" by (simp add: pushProposal_def)
  from closed_set_only_grows[where arrival = inOrder and ctx = background
      and G = detourGraph and start = 0
      and goalNode = 6 and h = zeroHeuristic and W = 3 and sl = detourLoop1
      and sl' = detourLoop2 and s = detourStepper1 and s' = detourStepper2
      and snap = "fst (snd (the (Step inOrder background detourStepper1)))"
      and err = "snd (snd (the (Step inOrder background detourStepper1)))"
      and st = "receiving detourLoop1" and p = pushProposal
      and st' = "the (applyProposal (receiving detourLoop1) pushProposal)"]
    detourLoop1_iteration detourStepper1_Step pushProposal_applied
  have "closedSet detourLoop1 \<subseteq> closedSet detourLoop2"
    and "closedSet detourStepper1 \<subseteq> closedSet detourStepper2"
    and "closedSet (the (applyProposal (receiving detourLoop1) pushProposal)) =
      closedSet (receiving detourLoop1)"
    and "\<forall>a. a \<in> set (openSet (the (applyProposal (receiving detourLoop1) pushProposal))) \<and>
          a \<notin> set (openSet (receiving detourLoop1)) \<longrightarrow>
          Node (items (the (applyProposal (receiving detourLoop1) pushProposal)) ! a) =
            ToNode pushProposal \<and>
          ToNode pushProposal \<notin> closedSet (the (applyProposal (receiving detourLoop1) pushProposal))"
    by blast+
  with pushProposal_facts t show ?thesis by simp
qed

text \<open>
  C8. Throughout every run of \<open>Search\<close> and every sequence of \<open>Step\<close> calls each entry of
  the g-score map is non-increasing: a received proposal changes the map at most at its
  target, where it creates the entry or replaces it by a strictly smaller value; a target
  without an entry is treated as infinitely far, so that any proposal for it (if it is
  not closed) creates the entry; and over an iteration of the orchestrator loop and over
  a \<open>Step\<close> call no entry disappears or increases.
\<close>

theorem g_score_only_decreases:
  "(applyProposal st p = Some st' \<longrightarrow>
      (\<forall>n. pathCostFromStart st' n = pathCostFromStart st n \<or>
           (n = ToNode p \<and> pathCostFromStart st' n = Some (propGScore p) \<and>
            (\<forall>old. pathCostFromStart st n = Some old \<longrightarrow> propGScore p < old)))) \<and>
   (applyProposal st p = Some st' \<and> ToNode p \<notin> closedSet st \<and>
    pathCostFromStart st (ToNode p) = None \<longrightarrow>
      pathCostFromStart st' (ToNode p) = Some (propGScore p)) \<and>
   (Search_iteration arrival ctx G start goalNode h W sl = Some (Inl sl') \<longrightarrow>
      nonincreasing (pathCostFromStart sl) (pathCostFromStart sl')) \<and>
   (Step arrival ctx s = Some (s', snap, err) \<longrightarrow>
      nonincreasing (pathCostFromStart s) (pathCostFromStart s'))"
proof (intro conjI impI allI)
  fix n assume "applyProposal st p = Some st'"
  from applyProposal_gscore[OF this, of n]
  show "pathCostFromStart st' n = pathCostFromStart st n \<or>
           (n = ToNode p \<and> pathCostFromStart st' n = Some (propGScore p) \<and>
            (\<forall>old. pathCostFromStart st n = Some old \<longrightarrow> propGScore p < old))" by blast
next
  assume a: "applyProposal st p = Some st' \<and> ToNode p \<notin> closedSet st \<and>
    pathCostFromStart st (ToNode p) = None"
  then have "applyProposal st p = Some st'" by simp
  then show "pathCostFromStart st' (ToNode p) = Some (propGScore p)"
    using a by (cases rule: applyProposal_cases) (simp_all add: improves_def)
next
  assume "Search_iteration arrival ctx G start goalNode h W sl = Some (Inl sl')"
  then show "nonincreasing (pathCostFromStart sl) (pathCostFromStart sl')"
    by (rule Search_iteration_changes(2))
next
  assume "Step arrival ctx s = Some (s', snap, err)"
  then show "nonincreasing (pathCostFromStart s) (pathCostFromStart s')"
    using Step_changes by blast
qed

theorem g_score_only_decreases_witness:
  "pathCostFromStart (receiving detourLoop2) 3 = Some (float64 7) \<and>
   pathCostFromStart (the (applyProposal (receiving detourLoop2) betterProposal)) 3 =
     Some (float64 3) \<and>
   float64 3 < float64 7 \<and>
   nonincreasing (pathCostFromStart detourLoop2) (pathCostFromStart detourLoop3) \<and>
   nonincreasing (pathCostFromStart detourStepper2) (pathCostFromStart detourStepper3)"
proof -
  from g_score_only_decreases[where arrival = inOrder and ctx = background
      and G = detourGraph and start = 0
      and goalNode = 6 and h = zeroHeuristic and W = 3 and sl = detourLoop2
      and sl' = detourLoop3 and s = detourStepper2 and s' = detourStepper3
      and snap = "fst (snd (the (Step inOrder background detourStepper2)))"
      and err = "snd (snd (the (Step inOrder background detourStepper2)))"
      and st = "receiving detourLoop2" and p = betterProposal
      and st' = "the (applyProposal (receiving detourLoop2) betterProposal)"]
    detourLoop2_iteration detourStepper2_Step betterProposal_applied
  have ch: "pathCostFromStart (the (applyProposal (receiving detourLoop2) betterProposal)) 3 =
        pathCostFromStart (receiving detourLoop2) 3 \<or>
      (\<forall>old. pathCostFromStart (receiving detourLoop2) 3 = Some old \<longrightarrow>
         propGScore betterProposal < old)"
    and n1: "nonincreasing (pathCostFromStart detourLoop2) (pathCostFromStart detourLoop3)"
    and n2: "nonincreasing (pathCostFromStart detourStepper2) (pathCostFromStart detourStepper3)"
    by blast+
  from ch betterProposal_facts have "propGScore betterProposal < float64 7" by auto
  then have "float64 3 < float64 7" by (simp add: betterProposal_def)
  with n1 n2 betterProposal_facts(1,2) show ?thesis by blast
qed

text \<open>
  C9. In every Stepper a caller can hold that is about to pop the goal node, walking the
  predecessor links from the goal until a node without predecessor ends and arrives at
  the start node that was given to \<open>NewStepper\<close>; so the \<open>Step\<close> call returns the
  goal-found snapshot whose path is \<open>reconstructPath\<close> of the same predecessor map with
  the true start node.
\<close>

theorem inferred_start_is_start:
  assumes "permutes arrival" and "Stepper_reach arrival ctx G start goalNode h W s"
    and "\<not> done' s" and "heap_Pop (items s, openSet s) = Some (pq, a)"
    and "Node (fst pq ! a) = goal s"
  shows "inferStartFromCameFrom (cameFrom s) (goal s) = Some start \<and>
         (\<exists>s' snap. Step arrival ctx s = Some (s', snap, None) \<and> Done snap \<and> snapFound snap \<and>
            reconstructPath (cameFrom s) (goal s) start = Some (snapPath snap))"
proof -
  from Stepper_reach_inv[OF assms(1,2)] have I: "state_inv G start s"
    and G: "graph s = G" by (simp_all add: stepper_inv_def)
  then have L: "links_ok G start s" by (simp add: state_inv_def)
  from I G show ?thesis
  proof (cases rule: Step_cases[where arrival = arrival and ctx = ctx])
    case finished
    with assms(3) show ?thesis by simp
  next
    case exhausted
    with assms(4) show ?thesis by (simp add: heap_Pop_def Len_def)
  next
    case (goal_found pq' a' s3 path)
    have "inferStartFromCameFrom (cameFrom s) (goal s) = Some start"
      using trail_inferStart[OF goal_found(7) links_ok_start(1)[OF L]] .
    moreover have "reconstructPath (cameFrom s) (goal s) start = Some path"
      using trail_reconstructPath[OF goal_found(7)] .
    ultimately show ?thesis using goal_found(8) by (simp add: snapshot_def)
  next
    case (expanded pq' a' s3)
    with assms(4,5) show ?thesis by simp
  qed
qed

theorem inferred_start_is_start_witness:
  "inferStartFromCameFrom (cameFrom pairStepper1) (goal pairStepper1) = Some 0 \<and>
   Step inOrder background pairStepper1 = Some (pairStepper2, pairSnapshot2, None) \<and>
   Done pairSnapshot2 \<and> snapFound pairSnapshot2 \<and>
   reconstructPath (cameFrom pairStepper1) (goal pairStepper1) 0 = Some (snapPath pairSnapshot2)"
  using inferred_start_is_start[OF permutes_inOrder pairStepper1_reach pairStepper1_facts(1)
      pairStepper1_pop pairStepper1_facts(2)] pairStepper1_Step
  by auto

text \<open>
  C10. In every run of \<open>Search\<close> and every sequence of \<open>Step\<close> calls the node popped from
  the frontier is not yet in the closed set, so the branch that discards a stale entry is
  never taken: at every loop head of the orchestrator and in every Stepper a caller can
  hold, whatever \<open>heap.Pop\<close> returns is the item of a node outside the closed set.
\<close>

theorem popped_node_not_closed:
  "permutes arrival \<Longrightarrow>
   (Search_reach arrival ctx G start goalNode h W sl \<and>
    heap_Pop (items sl, openSet sl) = Some (pq, a) \<longrightarrow>
      Node (fst pq ! a) \<notin> closedSet sl) \<and>
   (Stepper_reach arrival ctx G start goalNode h W s \<and>
    heap_Pop (items s, openSet s) = Some (pq', a') \<longrightarrow>
      Node (fst pq' ! a') \<notin> closedSet s)"
proof (intro conjI impI)
  assume perm: "permutes arrival"
    and r: "Search_reach arrival ctx G start goalNode h W sl \<and>
      heap_Pop (items sl, openSet sl) = Some (pq, a)"
  from r have reach: "Search_reach arrival ctx G start goalNode h W sl"
    and pop: "heap_Pop (items sl, openSet sl) = Some (pq, a)" by simp_all
  from Search_reach_inv(1)[OF perm reach] have "state_inv G start sl" .
  from state_inv_fresh[OF this pop] show "Node (fst pq ! a) \<notin> closedSet sl" .
next
  assume perm: "permutes arrival"
    and r: "Stepper_reach arrival ctx G start goalNode h W s \<and>
      heap_Pop (items s, openSet s) = Some (pq', a')"
  from r have reach: "Stepper_reach arrival ctx G start goalNode h W s"
    and pop: "heap_Pop (items s, openSet s) = Some (pq', a')" by simp_all
  from Stepper_reach_inv[OF perm reach] have "state_inv G start s"
    by (simp add: stepper_inv_def)
  from state_inv_fresh[OF this pop] show "Node (fst pq' ! a') \<notin> closedSet s" .
qed

theorem popped_node_not_closed_witness:
  "Node (fst (fst (the (heap_Pop (items detourLoop1, openSet detourLoop1)))) !
         snd (the (heap_Pop (items detourLoop1, openSet detourLoop1))))
     \<notin> closedSet detourLoop1 \<and>
   Node (fst (fst (the (heap_Pop (items detourStepper1, openSet detourStepper1)))) !
         snd (the (heap_Pop (items detourStepper1, openSet detourStepper1))))
     \<notin> closedSet detourStepper1"
  using popped_node_not_closed[OF permutes_inOrder, where G = detourGraph and start = 0
      and goalNode = 6 and h = zeroHeuristic and W = 3 and sl = detourLoop1
      and s = detourStepper1]
    detourLoop1_reach detourStepper1_reach detourLoop1_pop detourStepper1_pop
  by blast

end
